theory Spec2Isabelle
  imports Main
begin

section \<open>Strings, runes and the library the prettifier calls\<close>

text \<open>
  A Go \<open>rune\<close> is an \<open>int32\<close> holding a Unicode code point. The prettifier never does
  arithmetic on runes, it only compares them, so a rune is an \<open>int\<close>. A Go string is
  modelled by the sequence of code points that the conversion \<open>[]rune(s)\<close> yields
  (ill-formed bytes appear there as U+FFFD). The prefix \<open>Test\<close> is ASCII, so cutting it
  from the bytes and then decoding is cutting the four runes from the decoded sequence.
\<close>

type_synonym rune = int
type_synonym gostring = "rune list"

definition runes :: "string \<Rightarrow> gostring" where
  "runes s = map (\<lambda>c. int (of_char c)) s"

text \<open>
  The conversion \<open>string(rs)\<close> of a rune slice writes U+FFFD for a value that is no
  code point; \<open>len\<close> of a string counts the bytes of its UTF-8 encoding.
\<close>

definition valid_rune :: "rune \<Rightarrow> bool" where
  "valid_rune r = (0 \<le> r \<and> r \<le> 0x10FFFF \<and> \<not> (0xD800 \<le> r \<and> r \<le> 0xDFFF))"

definition string_of_runes :: "rune list \<Rightarrow> gostring" where
  "string_of_runes rs = map (\<lambda>r. if valid_rune r then r else 0xFFFD) rs"

definition rune_len :: "rune \<Rightarrow> nat" where
  "rune_len r = (if \<not> valid_rune r then 3 else if r < 0x80 then 1 else if r < 0x800 then 2
                 else if r < 0x10000 then 3 else 4)"

definition len :: "gostring \<Rightarrow> nat" where
  "len s = sum_list (map rune_len s)"

definition TrimPrefix :: "gostring \<Rightarrow> gostring \<Rightarrow> gostring" where
  "TrimPrefix s prefix = (if take (length prefix) s = prefix then drop (length prefix) s else s)"

fun Join :: "gostring list \<Rightarrow> gostring \<Rightarrow> gostring" where
  "Join [] sep = []"
| "Join [w] sep = w"
| "Join (w # ws) sep = w @ sep @ Join ws sep"

text \<open>
  The functions of the packages \<open>unicode\<close> and \<open>golang.org/x/text/cases\<close> are not part
  of the repository. The model takes them as a parameter: \<open>cases_Title\<close> stands for
  \<open>cases.Title(language.Und, cases.NoLower).String\<close> and \<open>cases_Lower\<close> for
  \<open>cases.Lower(language.Und).String\<close>.
\<close>

record library =
  unicode_IsUpper :: "rune \<Rightarrow> bool"
  unicode_IsLower :: "rune \<Rightarrow> bool"
  unicode_IsDigit :: "rune \<Rightarrow> bool"
  cases_Title :: "gostring \<Rightarrow> gostring"
  cases_Lower :: "gostring \<Rightarrow> gostring"

text \<open>
  A concrete library for evaluating the model on code points up to U+00FF. The three
  predicates are the library's answers there (above U+00FF they answer \<open>False\<close>, which
  the real tables do not). \<open>cases_Lower\<close> is the library's on every string of such code
  points. \<open>cases_Title\<close> changes the first rune only: it is the library's on a string
  without letters and on a string that is one word of letters whose first is not
  U+00B5, U+00DF or U+00FF (their title case lies outside Latin-1).
\<close>

definition latin1_IsUpper :: "rune \<Rightarrow> bool" where
  "latin1_IsUpper r = ((0x41 \<le> r \<and> r \<le> 0x5A) \<or> (0xC0 \<le> r \<and> r \<le> 0xD6) \<or> (0xD8 \<le> r \<and> r \<le> 0xDE))"

definition latin1_IsLower :: "rune \<Rightarrow> bool" where
  "latin1_IsLower r = ((0x61 \<le> r \<and> r \<le> 0x7A) \<or> r = 0xB5 \<or> (0xDF \<le> r \<and> r \<le> 0xF6)
                        \<or> (0xF8 \<le> r \<and> r \<le> 0xFF))"

definition latin1_IsDigit :: "rune \<Rightarrow> bool" where
  "latin1_IsDigit r = (0x30 \<le> r \<and> r \<le> 0x39)"

definition latin1_toLower :: "rune \<Rightarrow> rune" where
  "latin1_toLower r = (if latin1_IsUpper r then r + 0x20 else r)"

definition latin1_toUpper :: "rune \<Rightarrow> rune" where
  "latin1_toUpper r = (if (0x61 \<le> r \<and> r \<le> 0x7A) \<or> (0xE0 \<le> r \<and> r \<le> 0xF6) \<or> (0xF8 \<le> r \<and> r \<le> 0xFE)
                        then r - 0x20 else r)"

definition latin1_Title :: "gostring \<Rightarrow> gostring" where
  "latin1_Title s = (case s of [] \<Rightarrow> [] | r # rs \<Rightarrow> latin1_toUpper r # rs)"

definition latin1 :: library where
  "latin1 = \<lparr> unicode_IsUpper = latin1_IsUpper, unicode_IsLower = latin1_IsLower,
              unicode_IsDigit = latin1_IsDigit, cases_Title = latin1_Title,
              cases_Lower = map latin1_toLower \<rparr>"

section \<open>Panics\<close>

text \<open>
  Indexing a slice outside \<open>0 \<le> i < len\<close> and slicing outside \<open>0 \<le> lo \<le> hi \<le> cap\<close>
  panic in Go, and so does a method call on a \<open>nil\<close> interface value. The model returns
  the panic as a value. It checks a slice expression against the length, which is at
  most the capacity.
\<close>

datatype error = IndexOutOfRange | SliceBoundsOutOfRange | NilDereference

definition index :: "rune list \<Rightarrow> int \<Rightarrow> error + rune" where
  "index xs i = (if 0 \<le> i \<and> i < int (length xs) then Inr (xs ! nat i) else Inl IndexOutOfRange)"

definition slice :: "rune list \<Rightarrow> int \<Rightarrow> int \<Rightarrow> error + rune list" where
  "slice xs lo hi = (if 0 \<le> lo \<and> lo \<le> hi \<and> hi \<le> int (length xs)
                     then Inr (take (nat (hi - lo)) (drop (nat lo) xs))
                     else Inl SliceBoundsOutOfRange)"

definition bind :: "error + 'a \<Rightarrow> ('a \<Rightarrow> error + 'b) \<Rightarrow> error + 'b" where
  "bind m f = (case m of Inl e \<Rightarrow> Inl e | Inr x \<Rightarrow> f x)"

section \<open>The debug stream\<close>

text \<open>
  Every call of \<open>p.log\<close> hands one line to \<open>fmt.Fprintln(p.debug, ...)\<close>. A line is kept
  as its operands, not as formatted text. A writer is \<open>io.Discard\<close> or a stream with a
  state and a \<open>Write\<close> that returns; the error \<open>Fprintln\<close> reports is dropped by \<open>log\<close>.
  A value of the type \<open>'w writer\<close> is a writer that is not \<open>nil\<close>; the variable
  \<open>DebugWriter\<close>, which may hold \<open>nil\<close>, is read by \<open>Prettify_var\<close> below. A writer
  whose \<open>Write\<close> panics or does not return is not modelled.
\<close>

datatype logline =
    LogInput gostring
  | LogResult gostring
  | LogEmit gostring
  | LogMultiword gostring
  | LogState string gostring gostring

datatype 'w writer = Discard | Stream "logline \<Rightarrow> 'w \<Rightarrow> 'w" 'w

fun Fprintln :: "'w writer \<Rightarrow> logline \<Rightarrow> 'w writer" where
  "Fprintln Discard l = Discard"
| "Fprintln (Stream wr s) l = Stream wr (wr l s)"

section \<open>The prettifier\<close>

text \<open>
  The struct and its methods, each under the name it has in the source; \<open>next\<close> is a
  keyword of Isabelle and is written \<open>next_rune\<close>. \<open>start\<close> and \<open>pos\<close> are Go \<open>int\<close>s:
  the model uses unbounded integers, and the invariant proved below keeps them between
  \<open>0\<close> and the length of the input plus one, far from where an \<open>int\<close> wraps.
  \<open>inInitialism\<close> calls \<open>prev\<close> and \<open>next\<close> up to three times each on an unchanged
  prettifier; the model calls each once, \<open>next\<close> only when the rune before is upper-case,
  as the short-circuit \<open>&&\<close> does.
\<close>

record 'w prettifier =
  debug :: "'w writer"
  input :: "rune list"
  start :: int
  pos :: int
  words :: "gostring list"
  inSubTest :: bool
  seenUnderscore :: bool

definition eof :: rune where
  "eof = 0"

definition skip :: "'w prettifier \<Rightarrow> 'w prettifier" where
  "skip p = p\<lparr>start := pos p\<rparr>"

definition prev :: "'w prettifier \<Rightarrow> error + rune" where
  "prev p = index (input p) (pos p - 1)"

definition peek :: "'w prettifier \<Rightarrow> error + rune" where
  "peek p = (if pos p \<ge> int (length (input p)) then Inr eof else index (input p) (pos p))"

definition walk :: "'w prettifier \<Rightarrow> error + rune \<times> 'w prettifier" where
  "walk p = bind (peek p) (\<lambda>r. Inr (r, p\<lparr>pos := pos p + 1\<rparr>))"

definition next_rune :: "'w prettifier \<Rightarrow> error + rune" where
  "next_rune p = (if pos p + 1 \<ge> int (length (input p)) then index (input p) (pos p)
                  else index (input p) (pos p + 1))"

definition isInitialism :: "library \<Rightarrow> 'w prettifier \<Rightarrow> error + bool" where
  "isInitialism L p =
     (let e = (if pos p - 1 < start p then start p else pos p - 1) in
      bind (slice (input p) (start p) e) (\<lambda>rs.
        if list_ex (unicode_IsLower L) rs then Inr False
        else bind (index (input p) e) (\<lambda>r.
          Inr (unicode_IsUpper L r \<or> unicode_IsDigit L r \<or> r = 0x73))))"

definition inInitialism :: "library \<Rightarrow> 'w prettifier \<Rightarrow> error + bool" where
  "inInitialism L p =
     bind (prev p) (\<lambda>a.
       if \<not> unicode_IsUpper L a then Inr False
       else bind (next_rune p) (\<lambda>b.
         if unicode_IsUpper L b then Inr True
         else if unicode_IsDigit L b then Inr True
         else if b = 0x73 then Inr True
         else Inr False))"

definition log :: "'w prettifier \<Rightarrow> logline \<Rightarrow> 'w prettifier" where
  "log p l = p\<lparr>debug := Fprintln (debug p) l\<rparr>"

definition emit :: "library \<Rightarrow> 'w prettifier \<Rightarrow> error + 'w prettifier" where
  "emit L p =
     bind (slice (input p) (start p) (pos p)) (\<lambda>rs.
       let word = string_of_runes rs in
       bind (if length (words p) = 0 then Inr (cases_Title L word)
             else if len word < 3 then
               (if word = runes ''OK'' then Inr word else Inr (cases_Lower L word))
             else bind (isInitialism L p) (\<lambda>b.
               if b then Inr word else Inr (cases_Lower L word)))
         (\<lambda>word'. Inr (skip ((log p (LogEmit word'))\<lparr>words := words p @ [word']\<rparr>))))"

definition multiWordFunction :: "library \<Rightarrow> 'w prettifier \<Rightarrow> 'w prettifier" where
  "multiWordFunction L p =
     (let fname = foldl (\<lambda>f w. f @ cases_Title L w) [] (words p) in
      (log p (LogMultiword fname))\<lparr>words := [fname], seenUnderscore := True\<rparr>)"

definition logState :: "'w prettifier \<Rightarrow> string \<Rightarrow> error + 'w prettifier" where
  "logState p stateName =
     bind (if pos p < int (length (input p))
           then bind (index (input p) (pos p)) (\<lambda>r. Inr (string_of_runes [r]))
           else Inr (runes ''EOF'')) (\<lambda>nxt.
       bind (slice (input p) (start p) (pos p)) (\<lambda>rs.
         Inr (log p (LogState stateName (string_of_runes rs) nxt))))"

section \<open>The two states and the loop that runs them\<close>

text \<open>
  A \<open>stateFunc\<close> is one of the two functions or \<open>nil\<close> (here \<open>None\<close>). Each function
  below is one pass through the body of the \<open>for\<close> loop of the Go function of its name.
  In Go neither function ever returns itself; where the Go loop goes round again
  (the end of the \<open>switch\<close>, or \<open>continue\<close>), the pass returns its own state, and the
  loop of \<open>Prettify\<close> calls it again on the same prettifier. The operations on the
  prettifier, and their order, are those of the Go code.
\<close>

datatype stateFunc = BetweenWords | InWord

definition betweenWords :: "'w prettifier \<Rightarrow> error + 'w prettifier \<times> stateFunc option" where
  "betweenWords p =
     bind (logState p ''betweenWords'') (\<lambda>p.
       bind (walk p) (\<lambda>(r, p).
         if r = eof then Inr (p, None)
         else if r = 0x5F \<or> r = 0x2F then Inr (skip p, Some BetweenWords)
         else Inr (p, Some InWord)))"

definition inWord :: "library \<Rightarrow> 'w prettifier \<Rightarrow> error + 'w prettifier \<times> stateFunc option" where
  "inWord L p =
     bind (logState p ''inWord'') (\<lambda>p.
       bind (peek p) (\<lambda>r.
         if r = eof then bind (emit L p) (\<lambda>p. Inr (p, None))
         else if r = 0x5F then
           bind (emit L p) (\<lambda>p.
             Inr (if \<not> seenUnderscore p \<and> \<not> inSubTest p then multiWordFunction L p else p,
                  Some BetweenWords))
         else if r = 0x2F then
           bind (emit L p) (\<lambda>p. Inr (p\<lparr>inSubTest := True\<rparr>, Some BetweenWords))
         else if unicode_IsDigit L r then
           bind (prev p) (\<lambda>a.
             if unicode_IsDigit L a then bind (walk p) (\<lambda>(_, p). Inr (p, Some InWord))
             else if a = 0x2D then bind (walk p) (\<lambda>(_, p). Inr (p, Some InWord))
             else if a = 0x3D then bind (walk p) (\<lambda>(_, p). Inr (p, Some InWord))
             else bind (inInitialism L p) (\<lambda>b.
               if b then bind (walk p) (\<lambda>(_, p). Inr (p, Some InWord))
               else bind (emit L p) (\<lambda>p. Inr (p, Some BetweenWords))))
         else if unicode_IsUpper L r then
           bind (inInitialism L p) (\<lambda>b.
             if b then bind (walk p) (\<lambda>(_, p). Inr (p, Some InWord))
             else bind (emit L p) (\<lambda>p. Inr (p, Some BetweenWords)))
         else bind (walk p) (\<lambda>(_, p). Inr (p, Some InWord))))"

fun call :: "library \<Rightarrow> stateFunc \<Rightarrow> 'w prettifier \<Rightarrow> error + 'w prettifier \<times> stateFunc option" where
  "call L BetweenWords p = betweenWords p"
| "call L InWord p = inWord L p"

text \<open>
  The loop \<open>for state := betweenWords; state != nil; { state = state(p) }\<close>. It has no
  bound of its own, so it is a partial function: \<open>None\<close> is a loop that never ends,
  \<open>Some (Inl e)\<close> a panic, \<open>Some (Inr p)\<close> the prettifier when the state is \<open>nil\<close>.
\<close>

partial_function (option) loop ::
  "library \<Rightarrow> stateFunc option \<Rightarrow> 'w prettifier \<Rightarrow> (error + 'w prettifier) option" where
  "loop L state p =
     (case state of
        None \<Rightarrow> Some (Inr p)
      | Some f \<Rightarrow> (case call L f p of
                     Inl e \<Rightarrow> Some (Inl e)
                   | Inr (p', state') \<Rightarrow> loop L state' p'))"

declare loop.simps [code]

text \<open>
  \<open>Prettify\<close> with what it reads from its environment made arguments: the value of
  \<open>GOTESTDOX_DEBUG\<close> and the writer assigned to \<open>DebugWriter\<close>. \<open>Prettify_debug\<close> returns
  the result together with the debug writer after the call.
\<close>

definition new_prettifier :: "gostring \<Rightarrow> 'w writer \<Rightarrow> gostring \<Rightarrow> 'w prettifier" where
  "new_prettifier getenv DebugWriter inp =
     (let p = \<lparr> debug = Discard, input = TrimPrefix inp (runes ''Test''), start = 0, pos = 0,
                words = [], inSubTest = False, seenUnderscore = False \<rparr>;
          p = (if getenv \<noteq> [] then p\<lparr>debug := DebugWriter\<rparr> else p)
      in log p (LogInput inp))"

definition Prettify_debug ::
  "library \<Rightarrow> gostring \<Rightarrow> 'w writer \<Rightarrow> gostring \<Rightarrow> (error + gostring \<times> 'w writer) option" where
  "Prettify_debug L getenv DebugWriter inp =
     (case loop L (Some BetweenWords) (new_prettifier getenv DebugWriter inp) of
        None \<Rightarrow> None
      | Some (Inl e) \<Rightarrow> Some (Inl e)
      | Some (Inr p) \<Rightarrow>
          (let result = Join (words p) (runes '' '');
               p = log p (LogResult result)
           in Some (Inr (result, debug p))))"

definition Prettify :: "library \<Rightarrow> gostring \<Rightarrow> 'w writer \<Rightarrow> gostring \<Rightarrow> (error + gostring) option" where
  "Prettify L getenv DebugWriter inp =
     map_option (map_sum id fst) (Prettify_debug L getenv DebugWriter inp)"

text \<open>
  \<open>DebugWriter\<close> is an exported variable of the interface type \<open>io.Writer\<close>, and \<open>nil\<close>
  can be assigned to it (here \<open>None\<close>). When \<open>GOTESTDOX_DEBUG\<close> is set, \<open>p.debug\<close> is
  the value of the variable, and the first statement that uses it is
  \<open>p.log("input:", input)\<close>, before the loop: \<open>fmt.Fprintln\<close> calls \<open>Write\<close> on it and
  panics when it is \<open>nil\<close>. A writer that is not \<open>nil\<close> is never replaced during the
  call. When the switch is not set the variable is not read and \<open>p.debug\<close> is
  \<open>io.Discard\<close>.
\<close>

definition Prettify_var ::
  "library \<Rightarrow> gostring \<Rightarrow> 'w writer option \<Rightarrow> gostring \<Rightarrow> (error + gostring) option" where
  "Prettify_var L getenv DebugWriter inp =
     (case (if getenv \<noteq> [] then DebugWriter else Some Discard) of
        None \<Rightarrow> Some (Inl NilDereference)
      | Some W \<Rightarrow> Prettify L getenv W inp)"

section \<open>The run of the loop, pass by pass\<close>

text \<open>
  A configuration is what the loop of \<open>Prettify\<close> holds between two calls: the
  prettifier and the next state, or a panic. \<open>step\<close> is one turn of the loop (one
  call \<open>state = state(p)\<close>); a configuration whose state is \<open>nil\<close>, and a panic, stay
  as they are. \<open>entry\<close> is the configuration the loop starts from.
\<close>

type_synonym 'w config = "error + 'w prettifier \<times> stateFunc option"

definition step :: "library \<Rightarrow> 'w config \<Rightarrow> 'w config" where
  "step L c = (case c of Inr (p, Some f) \<Rightarrow> call L f p | _ \<Rightarrow> c)"

definition loop_from :: "library \<Rightarrow> 'w config \<Rightarrow> (error + 'w prettifier) option" where
  "loop_from L c = (case c of Inl e \<Rightarrow> Some (Inl e) | Inr (p, st) \<Rightarrow> loop L st p)"

definition running :: "'w config \<Rightarrow> bool" where
  "running c = (case c of Inr (p, Some f) \<Rightarrow> True | _ \<Rightarrow> False)"

definition entry :: "gostring \<Rightarrow> 'w writer \<Rightarrow> gostring \<Rightarrow> 'w config" where
  "entry getenv DebugWriter inp = Inr (new_prettifier getenv DebugWriter inp, Some BetweenWords)"

section \<open>What one pass computes, when the cursor is in range\<close>

text \<open>
  The cursor of a pass of \<open>betweenWords\<close> satisfies \<open>in_range\<close>, the cursor of a
  pass of \<open>inWord\<close> satisfies \<open>in_word\<close>. Under these conditions no index leaves the
  slice, and the pass is the function of the fields written below: \<open>cur\<close> is the rune
  \<open>peek\<close> returns, \<open>raw_word\<close> the string \<open>emit\<close> cuts out, \<open>is_init\<close> and
  \<open>in_init\<close> the answers of \<open>isInitialism\<close> and \<open>inInitialism\<close>, \<open>emitted\<close> the
  word \<open>emit\<close> appends, \<open>continues\<close> the condition under which \<open>inWord\<close> walks on,
  and \<open>inWord_next\<close> the result of the pass of \<open>inWord\<close>.
\<close>

definition in_range :: "'w prettifier \<Rightarrow> bool" where
  "in_range p = (0 \<le> start p \<and> start p \<le> pos p \<and> pos p \<le> int (length (input p)))"

definition in_word :: "'w prettifier \<Rightarrow> bool" where
  "in_word p = (0 \<le> start p \<and> start p < pos p \<and> pos p \<le> int (length (input p)))"

definition cur :: "'w prettifier \<Rightarrow> rune" where
  "cur p = (if pos p \<ge> int (length (input p)) then eof else input p ! nat (pos p))"

definition raw_word :: "'w prettifier \<Rightarrow> gostring" where
  "raw_word p = string_of_runes (take (nat (pos p - start p)) (drop (nat (start p)) (input p)))"

definition is_init :: "library \<Rightarrow> 'w prettifier \<Rightarrow> bool" where
  "is_init L p =
     (\<not> list_ex (unicode_IsLower L) (take (nat (pos p - 1 - start p)) (drop (nat (start p)) (input p)))
      \<and> (let r = input p ! nat (pos p - 1) in unicode_IsUpper L r \<or> unicode_IsDigit L r \<or> r = 0x73))"

definition in_init :: "library \<Rightarrow> 'w prettifier \<Rightarrow> bool" where
  "in_init L p =
     (unicode_IsUpper L (input p ! nat (pos p - 1))
      \<and> (let b = (if pos p + 1 \<ge> int (length (input p)) then input p ! nat (pos p)
                    else input p ! nat (pos p + 1))
         in unicode_IsUpper L b \<or> unicode_IsDigit L b \<or> b = 0x73))"

definition emitted :: "library \<Rightarrow> 'w prettifier \<Rightarrow> gostring" where
  "emitted L p =
     (let word = raw_word p in
      if words p = [] then cases_Title L word
      else if len word < 3 then (if word = runes ''OK'' then word else cases_Lower L word)
      else if is_init L p then word else cases_Lower L word)"

definition continues :: "library \<Rightarrow> 'w prettifier \<Rightarrow> bool" where
  "continues L p =
     (let r = cur p; a = input p ! nat (pos p - 1) in
      r \<noteq> eof \<and> r \<noteq> 0x5F \<and> r \<noteq> 0x2F \<and>
      (if unicode_IsDigit L r
       then unicode_IsDigit L a \<or> a = 0x2D \<or> a = 0x3D \<or> in_init L p
       else if unicode_IsUpper L r then in_init L p else True))"

definition inWord_next :: "library \<Rightarrow> 'w prettifier \<Rightarrow> 'w writer \<Rightarrow> 'w prettifier \<times> stateFunc option" where
  "inWord_next L p d =
     (if continues L p then (p\<lparr>debug := d, pos := pos p + 1\<rparr>, Some InWord)
      else if cur p = eof then
        (p\<lparr>debug := d, words := words p @ [emitted L p], start := pos p\<rparr>, None)
      else if cur p = 0x5F \<and> \<not> seenUnderscore p \<and> \<not> inSubTest p then
        (p\<lparr>debug := d, words := [concat (map (cases_Title L) (words p @ [emitted L p]))],
           start := pos p, seenUnderscore := True\<rparr>, Some BetweenWords)
      else if cur p = 0x2F then
        (p\<lparr>debug := d, words := words p @ [emitted L p], start := pos p, inSubTest := True\<rparr>,
         Some BetweenWords)
      else
        (p\<lparr>debug := d, words := words p @ [emitted L p], start := pos p\<rparr>, Some BetweenWords))"

text \<open>
  The invariant of the loop, and the number of passes a configuration can still make:
  \<open>betweenWords\<close> starts a pass with \<open>start = pos\<close>, \<open>inWord\<close> with \<open>start < pos\<close>,
  both with \<open>pos\<close> inside the input; only the last pass of \<open>betweenWords\<close>, which
  walks at the end of the input, leaves \<open>pos\<close> one beyond it.
\<close>

definition wf_cfg :: "rune list \<Rightarrow> 'w config \<Rightarrow> bool" where
  "wf_cfg inp c =
     (case c of
        Inl e \<Rightarrow> False
      | Inr (p, st) \<Rightarrow>
          input p = inp \<and>
          (case st of
             None \<Rightarrow> 0 \<le> start p \<and> start p \<le> pos p \<and> pos p \<le> int (length inp) + 1
           | Some BetweenWords \<Rightarrow> in_range p \<and> start p = pos p
           | Some InWord \<Rightarrow> in_word p))"

definition fuel :: "'w config \<Rightarrow> nat" where
  "fuel c =
     (case c of
        Inl e \<Rightarrow> 0
      | Inr (p, None) \<Rightarrow> 0
      | Inr (p, Some BetweenWords) \<Rightarrow> 2 * nat (int (length (input p)) - pos p) + 1
      | Inr (p, Some InWord) \<Rightarrow> 2 * nat (int (length (input p)) - pos p) + 2)"

section \<open>Libraries that agree with Unicode on ASCII\<close>

text \<open>
  What the literal scenarios need of the library: on the code points below U+0080 the
  three predicates are those of ASCII, \<open>cases_Lower\<close> maps an ASCII string rune by rune,
  and \<open>cases_Title\<close> capitalises the first rune of a non-empty string of ASCII letters
  and leaves the rest as it is.
\<close>

definition ascii :: "rune \<Rightarrow> bool" where
  "ascii r = (0 \<le> r \<and> r < 0x80)"

definition ascii_letter :: "rune \<Rightarrow> bool" where
  "ascii_letter r = ((0x41 \<le> r \<and> r \<le> 0x5A) \<or> (0x61 \<le> r \<and> r \<le> 0x7A))"

definition ascii_library :: "library \<Rightarrow> bool" where
  "ascii_library L =
     ((\<forall>r. ascii r \<longrightarrow> unicode_IsUpper L r = latin1_IsUpper r \<and> unicode_IsLower L r = latin1_IsLower r
                       \<and> unicode_IsDigit L r = latin1_IsDigit r)
      \<and> (\<forall>w. list_all ascii w \<longrightarrow> cases_Lower L w = map latin1_toLower w)
      \<and> (\<forall>w. w \<noteq> [] \<and> list_all ascii_letter w \<longrightarrow> cases_Title L w = latin1_Title w))"

section \<open>Configurations up to the debug writer\<close>

text \<open>
  \<open>quiet\<close> forgets the debug writer of a prettifier; two configurations with the same
  image under \<open>quiet_cfg\<close> differ in what they have logged only.
\<close>

definition quiet :: "'w prettifier \<Rightarrow> unit prettifier" where
  "quiet p = \<lparr> debug = Discard, input = input p, start = start p, pos = pos p, words = words p,
              inSubTest = inSubTest p, seenUnderscore = seenUnderscore p \<rparr>"

definition quiet_cfg :: "'w config \<Rightarrow> unit config" where
  "quiet_cfg c = (case c of Inl e \<Rightarrow> Inl e | Inr (p, st) \<Rightarrow> Inr (quiet p, st))"

section \<open>The cursor\<close>

text \<open>
  \<open>cfg_pos\<close> is the position of the cursor in a configuration. \<open>cursor_in_input\<close> is
  the invariant the specification states for the cursor: \<open>start <= pos <= len(Input)\<close>.
\<close>

definition cfg_pos :: "'w config \<Rightarrow> int" where
  "cfg_pos c = (case c of Inl e \<Rightarrow> 0 | Inr (p, st) \<Rightarrow> pos p)"

definition cursor_in_input :: "'w prettifier \<Rightarrow> bool" where
  "cursor_in_input p = (start p \<le> pos p \<and> pos p \<le> int (length (input p)))"

section \<open>Spaces in the result\<close>

text \<open>
  A word is \<open>solid\<close> when it is not empty and holds no space. The case mappings of the
  library map a solid string to a solid string: they neither delete a string nor write a
  space. \<open>leading_space\<close>, \<open>trailing_space\<close> and \<open>doubled_space\<close> are what the
  specification excludes from the result. \<open>cfg_words\<close> is the word list of a
  configuration.
\<close>

definition solid :: "gostring \<Rightarrow> bool" where
  "solid w = (w \<noteq> [] \<and> 0x20 \<notin> set w)"

definition spaceless_library :: "library \<Rightarrow> bool" where
  "spaceless_library L = (\<forall>w. solid w \<longrightarrow> solid (cases_Title L w) \<and> solid (cases_Lower L w))"

definition leading_space :: "gostring \<Rightarrow> bool" where
  "leading_space s = (case s of [] \<Rightarrow> False | r # _ \<Rightarrow> r = 0x20)"

definition trailing_space :: "gostring \<Rightarrow> bool" where
  "trailing_space s = leading_space (rev s)"

fun doubled_space :: "gostring \<Rightarrow> bool" where
  "doubled_space [] = False"
| "doubled_space [a] = False"
| "doubled_space (a # b # s) = ((a = 0x20 \<and> b = 0x20) \<or> doubled_space (b # s))"

definition tidy :: "gostring \<Rightarrow> bool" where
  "tidy s = (\<not> leading_space s \<and> \<not> trailing_space s \<and> \<not> doubled_space s)"

definition cfg_words :: "'w config \<Rightarrow> gostring list" where
  "cfg_words c = (case c of Inl e \<Rightarrow> [] | Inr (p, st) \<Rightarrow> words p)"

section \<open>Upper-case runs\<close>



section \<open>The multi-word-function fold\<close>

text \<open>
  \<open>reads r c\<close>: the next pass, of either state, finds the rune \<open>r\<close> under the cursor.
  \<open>meets r c\<close>: the next pass is a pass of \<open>inWord\<close> and finds \<open>r\<close> under the cursor.

  That the fold fires is that \<open>multiWordFunction\<close> is called, and the call is
  observable: \<open>multiWordFunction\<close> writes the line \<open>multiword function\<close> to the debug
  stream, and nothing else writes it. \<open>recorder\<close> is a writer that keeps the lines it is
  given, \<open>recorded\<close> reads them back, and \<open>fold_calls c\<close> counts the lines of
  \<open>multiWordFunction\<close> among them: the number of times the fold has fired before the
  configuration \<open>c\<close> of a run with \<open>GOTESTDOX_DEBUG\<close> set and this writer.

  \<open>folds\<close>, \<open>flagged\<close> and \<open>seen\<close> are used in the proofs only: the guard of the call
  in \<open>inWord\<close>, and the flags it reads.
\<close>

definition reads :: "rune \<Rightarrow> 'w config \<Rightarrow> bool" where
  "reads r c = (case c of Inr (p, Some f) \<Rightarrow> peek p = Inr r | _ \<Rightarrow> False)"

definition recorder :: "logline list writer" where
  "recorder = Stream (\<lambda>l s. s @ [l]) []"

fun recorded :: "logline list writer \<Rightarrow> logline list" where
  "recorded Discard = []"
| "recorded (Stream wr s) = s"

fun is_multiword :: "logline \<Rightarrow> bool" where
  "is_multiword (LogMultiword f) = True"
| "is_multiword l = False"

definition fold_calls :: "logline list config \<Rightarrow> nat" where
  "fold_calls c =
     (case c of Inl e \<Rightarrow> 0 | Inr (p, st) \<Rightarrow> length (filter is_multiword (recorded (debug p))))"

definition recording :: "logline list writer \<Rightarrow> bool" where
  "recording w = (case w of Discard \<Rightarrow> False | Stream wr s \<Rightarrow> wr = (\<lambda>l s. s @ [l]))"

definition cfg_recording :: "logline list config \<Rightarrow> bool" where
  "cfg_recording c = (case c of Inl e \<Rightarrow> False | Inr (p, st) \<Rightarrow> recording (debug p))"

definition seen :: "'w config \<Rightarrow> bool" where
  "seen c = (case c of Inl e \<Rightarrow> False | Inr (p, st) \<Rightarrow> seenUnderscore p)"

definition meets :: "rune \<Rightarrow> 'w config \<Rightarrow> bool" where
  "meets r c = (case c of Inr (p, Some InWord) \<Rightarrow> peek p = Inr r | _ \<Rightarrow> False)"

definition folds :: "'w config \<Rightarrow> bool" where
  "folds c =
     (case c of
        Inr (p, Some InWord) \<Rightarrow> peek p = Inr 0x5F \<and> \<not> seenUnderscore p \<and> \<not> inSubTest p
      | _ \<Rightarrow> False)"

definition flagged :: "'w config \<Rightarrow> bool" where
  "flagged c = (case c of Inl e \<Rightarrow> False | Inr (p, st) \<Rightarrow> seenUnderscore p \<or> inSubTest p)"

section \<open>Lemmas: the passes\<close>

lemma loop_from_step: "loop_from L (step L c) = loop_from L c"
proof (cases c)
  case (Inl e)
  then show ?thesis by (simp add: step_def)
next
  case (Inr q)
  obtain p st where q: "q = (p, st)" by (cases q)
  show ?thesis
  proof (cases st)
    case None
    with Inr q show ?thesis by (simp add: step_def)
  next
    case (Some f)
    have "loop L (Some f) p = loop_from L (call L f p)"
      by (subst loop.simps) (simp add: loop_from_def split: sum.splits prod.splits)
    with Inr q Some show ?thesis by (simp add: step_def loop_from_def)
  qed
qed

lemma loop_from_steps: "loop_from L ((step L ^^ n) c) = loop_from L c"
  by (induction n) (simp_all add: loop_from_step)

lemma bind_Inr [simp]: "bind (Inr x) f = f x"
  by (simp add: bind_def)

lemma bind_Inl [simp]: "bind (Inl e) f = Inl e"
  by (simp add: bind_def)

lemma peek_ok: "0 \<le> pos p \<Longrightarrow> peek p = Inr (cur p)"
  by (simp add: peek_def cur_def index_def)

lemma logState_ok: "in_range p \<Longrightarrow> \<exists>l. logState p n = Inr (log p l)"
  by (auto simp: logState_def in_range_def index_def slice_def)

lemma betweenWords_ok:
  assumes "in_range p"
  shows "\<exists>d. betweenWords p =
     Inr (if cur p = eof then (p\<lparr>debug := d, pos := pos p + 1\<rparr>, None)
          else if cur p = 0x5F \<or> cur p = 0x2F
            then (p\<lparr>debug := d, start := pos p + 1, pos := pos p + 1\<rparr>, Some BetweenWords)
          else (p\<lparr>debug := d, pos := pos p + 1\<rparr>, Some InWord))"
proof -
  from logState_ok [OF assms] obtain l where l: "logState p ''betweenWords'' = Inr (log p l)"
    by blast
  have "0 \<le> pos p" using assms by (simp add: in_range_def)
  then have "peek (log p l) = Inr (cur p)"
    using peek_ok [of "log p l"] by (simp add: log_def cur_def)
  then show ?thesis
    by (intro exI [of _ "Fprintln (debug p) l"])
       (simp add: betweenWords_def l walk_def skip_def log_def)
qed

lemma isInitialism_ok: "in_word p \<Longrightarrow> isInitialism L p = Inr (is_init L p)"
  by (simp add: isInitialism_def is_init_def in_word_def slice_def index_def Let_def)

lemma emit_ok:
  assumes "in_word p"
  shows "emit L p = Inr (p\<lparr>debug := Fprintln (debug p) (LogEmit (emitted L p)),
                            words := words p @ [emitted L p], start := pos p\<rparr>)"
proof -
  have s: "slice (input p) (start p) (pos p)
             = Inr (take (nat (pos p - start p)) (drop (nat (start p)) (input p)))"
    using assms by (simp add: slice_def in_word_def)
  have "emit L p = Inr (skip ((log p (LogEmit (emitted L p)))\<lparr>words := words p @ [emitted L p]\<rparr>))"
    unfolding emit_def s bind_Inr isInitialism_ok [OF assms] emitted_def raw_word_def Let_def
    by (simp add: bind_def)
  then show ?thesis
    by (simp add: skip_def log_def)
qed

lemma inInitialism_ok:
  "in_word p \<Longrightarrow> pos p < int (length (input p)) \<Longrightarrow> inInitialism L p = Inr (in_init L p)"
  by (simp add: inInitialism_def in_init_def in_word_def prev_def next_rune_def index_def Let_def)

lemma foldl_Title: "foldl (\<lambda>f w. f @ g w) acc ws = acc @ concat (map g ws)"
  by (induction ws arbitrary: acc) simp_all

lemma log_fields [simp]:
  "input (log p l) = input p" "start (log p l) = start p" "pos (log p l) = pos p"
  "words (log p l) = words p" "inSubTest (log p l) = inSubTest p"
  "seenUnderscore (log p l) = seenUnderscore p"
  by (simp_all add: log_def)

lemma log_pure [simp]:
  "cur (log p l) = cur p" "raw_word (log p l) = raw_word p" "is_init L (log p l) = is_init L p"
  "in_init L (log p l) = in_init L p" "in_word (log p l) = in_word p"
  by (simp_all add: cur_def in_init_def in_word_def raw_word_def is_init_def)

lemma log_pure2 [simp]:
  "emitted L (log p l) = emitted L p" "continues L (log p l) = continues L p"
  by (simp_all add: emitted_def continues_def Let_def cong: if_cong)

lemma log_debug_update [simp]: "(log p l)\<lparr>debug := d\<rparr> = p\<lparr>debug := d\<rparr>"
  by (simp add: log_def)

lemma inWord_next_log: "inWord_next L (log p l) d = inWord_next L p d"
  by (simp add: inWord_next_def)

lemma inWord_ok:
  assumes "in_word p"
  shows "\<exists>d. inWord L p = Inr (inWord_next L p d)"
proof -
  have r: "in_range p" using assms by (simp add: in_range_def in_word_def)
  from logState_ok [OF r] obtain l where l: "logState p ''inWord'' = Inr (log p l)"
    by blast
  define q where "q = log p l"
  have q: "in_word q" "cur q = cur p" "0 \<le> pos q"
    using assms by (simp_all add: q_def in_word_def)
  have pk: "peek q = Inr (cur q)" using q by (simp add: peek_ok)
  have em: "emit L q = Inr (q\<lparr>debug := Fprintln (debug q) (LogEmit (emitted L q)),
                            words := words q @ [emitted L q], start := pos q\<rparr>)"
    using emit_ok [OF q(1)] .
  have wk: "walk q = Inr (cur q, q\<lparr>pos := pos q + 1\<rparr>)"
    by (simp add: walk_def pk)
  have pv: "prev q = Inr (input q ! nat (pos q - 1))"
    using q(1) by (simp add: prev_def index_def in_word_def)
  have ii: "cur q \<noteq> eof \<Longrightarrow> inInitialism L q = Inr (in_init L q)"
    using inInitialism_ok [OF q(1)] by (simp add: cur_def split: if_splits)
  define W where "W = (q\<lparr>pos := pos q + 1\<rparr>, Some InWord)"
  define E where "E = q\<lparr>debug := Fprintln (debug q) (LogEmit (emitted L q)),
                            words := words q @ [emitted L q], start := pos q\<rparr>"
  have body: "inWord L p =
       (if cur q = eof then Inr (E, None)
        else if cur q = 0x5F then
          Inr (if \<not> seenUnderscore E \<and> \<not> inSubTest E then multiWordFunction L E else E,
               Some BetweenWords)
        else if cur q = 0x2F then Inr (E\<lparr>inSubTest := True\<rparr>, Some BetweenWords)
        else if continues L q then Inr W else Inr (E, Some BetweenWords))"
    unfolding inWord_def l q_def [symmetric] bind_Inr pk
    by (simp add: em wk pv ii continues_def Let_def W_def E_def)
  have mw: "multiWordFunction L E =
      E\<lparr>debug := Fprintln (debug E) (LogMultiword (concat (map (cases_Title L) (words E)))),
        words := [concat (map (cases_Title L) (words E))], seenUnderscore := True\<rparr>"
    by (simp add: multiWordFunction_def foldl_Title [where acc="[]", simplified] log_def Let_def)
  have nc: "cur q = eof \<or> cur q = 0x5F \<or> cur q = 0x2F \<Longrightarrow> \<not> continues L q"
    by (auto simp: continues_def Let_def)
  have "\<exists>d. inWord L p = Inr (inWord_next L q d)"
  proof (cases "continues L q")
    case True
    with nc have "inWord L p = Inr W" by (auto simp: body)
    with True show ?thesis
      by (intro exI [of _ "debug q"]) (simp add: inWord_next_def W_def)
  next
    case False
    show ?thesis
    proof (cases "cur q = 0x5F \<and> \<not> seenUnderscore q \<and> \<not> inSubTest q")
      case True
      then have "inWord L p = Inr (multiWordFunction L E, Some BetweenWords)"
        by (simp add: body eof_def E_def)
      moreover define D where "D = Fprintln (debug E) (LogMultiword (concat (map (cases_Title L) (words E))))"
      ultimately have "inWord L p = Inr (q\<lparr>debug := D,
           words := [concat (map (cases_Title L) (words q @ [emitted L q]))],
           start := pos q, seenUnderscore := True\<rparr>, Some BetweenWords)"
        unfolding mw D_def [symmetric] by (simp add: E_def)
      with True False show ?thesis
        by (intro exI [of _ D]) (simp add: inWord_next_def eof_def)
    next
      case nf: False
      then have "inWord L p =
         (if cur q = eof then Inr (E, None)
          else if cur q = 0x2F then Inr (E\<lparr>inSubTest := True\<rparr>, Some BetweenWords)
          else Inr (E, Some BetweenWords))"
        using False by (auto simp: body E_def)
      with nf False show ?thesis
        by (intro exI [of _ "debug E"]) (auto simp: inWord_next_def E_def)
    qed
  qed
  then show ?thesis
    by (simp add: q_def inWord_next_log)
qed

lemma continues_not_eof: "continues L p \<Longrightarrow> pos p < int (length (input p))"
  by (auto simp: continues_def cur_def Let_def split: if_splits)

lemma wf_step_between:
  assumes "in_range p" "start p = pos p"
  shows "wf_cfg (input p) (betweenWords p) \<and> fuel (betweenWords p) < fuel (Inr (p, Some BetweenWords))"
proof -
  from betweenWords_ok [OF assms(1)] obtain d where
    "betweenWords p =
     Inr (if cur p = eof then (p\<lparr>debug := d, pos := pos p + 1\<rparr>, None)
          else if cur p = 0x5F \<or> cur p = 0x2F
            then (p\<lparr>debug := d, start := pos p + 1, pos := pos p + 1\<rparr>, Some BetweenWords)
          else (p\<lparr>debug := d, pos := pos p + 1\<rparr>, Some InWord))" by blast
  moreover have "cur p \<noteq> eof \<Longrightarrow> pos p < int (length (input p))"
    by (auto simp: cur_def split: if_splits)
  ultimately show ?thesis using assms
    by (auto simp: wf_cfg_def fuel_def in_range_def in_word_def)
qed

lemma wf_step_inWord:
  assumes "in_word p"
  shows "wf_cfg (input p) (inWord L p) \<and> fuel (inWord L p) < fuel (Inr (p, Some InWord))"
proof -
  from inWord_ok [OF assms] obtain d where "inWord L p = Inr (inWord_next L p d)" by blast
  then show ?thesis using assms continues_not_eof [of L p]
    by (auto simp: inWord_next_def wf_cfg_def fuel_def in_range_def in_word_def)
qed

lemma step_wf_fuel:
  assumes "wf_cfg inp c" "running c"
  shows "wf_cfg inp (step L c) \<and> fuel (step L c) < fuel c"
proof -
  from assms(2) obtain p f where c: "c = Inr (p, Some f)"
    by (auto simp: running_def split: sum.splits option.splits)
  show ?thesis
  proof (cases f)
    case BetweenWords
    with assms c have "in_range p" "start p = pos p" "input p = inp"
      by (auto simp: wf_cfg_def)
    with wf_step_between [of p] show ?thesis
      by (simp add: c step_def BetweenWords)
  next
    case InWord
    with assms c have "in_word p" "input p = inp"
      by (auto simp: wf_cfg_def)
    with wf_step_inWord [of p L] show ?thesis
      by (simp add: c step_def InWord)
  qed
qed

lemma step_halted: "\<not> running c \<Longrightarrow> step L c = c"
  by (auto simp: step_def running_def split: sum.splits option.splits)

lemma wf_step: "wf_cfg inp c \<Longrightarrow> wf_cfg inp (step L c)"
  using step_wf_fuel [of inp c L] step_halted [of c L] by (cases "running c") auto

lemma fuel_step: "wf_cfg inp c \<Longrightarrow> running c \<Longrightarrow> fuel (step L c) < fuel c"
  using step_wf_fuel by blast

lemma wf_steps: "wf_cfg inp c \<Longrightarrow> wf_cfg inp ((step L ^^ n) c)"
  by (induction n) (simp_all add: wf_step)

lemma fuel_steps: "wf_cfg inp c \<Longrightarrow> fuel ((step L ^^ n) c) \<le> fuel c - n"
proof (induction n)
  case 0
  then show ?case by simp
next
  case (Suc n)
  let ?c = "(step L ^^ n) c"
  show ?case
  proof (cases "running ?c")
    case True
    from fuel_step [OF wf_steps [OF Suc.prems] True]
    have "fuel (step L ?c) < fuel ?c" .
    with Suc show ?thesis by simp
  next
    case False
    then have "fuel ?c = 0"
      by (auto simp: fuel_def running_def split: sum.splits option.splits)
    with False show ?thesis by (simp add: step_halted)
  qed
qed

lemma halts: 
  assumes "wf_cfg inp c"
  shows "\<exists>p. (step L ^^ fuel c) c = Inr (p, None)"
proof -
  let ?c = "(step L ^^ fuel c) c"
  have "fuel ?c = 0" using fuel_steps [OF assms, of "fuel c" L] by simp
  moreover have "wf_cfg inp ?c" using assms by (rule wf_steps)
  ultimately show ?thesis
    by (auto simp: fuel_def wf_cfg_def split: sum.splits option.splits stateFunc.splits)
qed

lemma new_prettifier_fields [simp]:
  "input (new_prettifier g W inp) = TrimPrefix inp (runes ''Test'')"
  "start (new_prettifier g W inp) = 0" "pos (new_prettifier g W inp) = 0"
  "words (new_prettifier g W inp) = []" "\<not> inSubTest (new_prettifier g W inp)"
  "\<not> seenUnderscore (new_prettifier g W inp)"
  by (simp_all add: new_prettifier_def Let_def)

lemma wf_entry: "wf_cfg (TrimPrefix inp (runes ''Test'')) (entry g W inp)"
  by (simp add: wf_cfg_def entry_def in_range_def)

lemma fuel_entry: "fuel (entry g W inp) = 2 * length (TrimPrefix inp (runes ''Test'')) + 1"
  by (simp add: fuel_def entry_def)

lemma loop_halted: "(step L ^^ n) c = Inr (p, None) \<Longrightarrow> loop_from L c = Some (Inr p)"
  using loop_from_steps [of L n c] by (simp add: loop_from_def loop.simps)

section \<open>Termination and absence of panics\<close>

text \<open>
  C9. The loop of \<open>Prettify\<close> ends for every input: started on the prefix-stripped
  input, it reaches the state \<open>nil\<close> after at most \<open>2 * length + 1\<close> passes through
  the bodies of \<open>betweenWords\<close> and \<open>inWord\<close>, and \<open>loop\<close> returns the prettifier of
  that configuration.
\<close>

theorem loop_terminates:
  "\<exists>n \<le> 2 * length (TrimPrefix inp (runes ''Test'')) + 1. \<exists>p.
     (step L ^^ n) (entry getenv DebugWriter inp) = Inr (p, None) \<and>
     loop L (Some BetweenWords) (new_prettifier getenv DebugWriter inp) = Some (Inr p)"
proof -
  let ?c = "entry getenv DebugWriter inp"
  from halts [OF wf_entry] obtain p where p: "(step L ^^ fuel ?c) ?c = Inr (p, None)"
    by blast
  from loop_halted [OF p] have "loop L (Some BetweenWords) (new_prettifier getenv DebugWriter inp) = Some (Inr p)"
    by (simp add: loop_from_def entry_def)
  with p show ?thesis
    by (intro exI [of _ "fuel ?c"] conjI exI [of _ p]) (simp_all add: fuel_entry)
qed

text \<open>
  C3. \<open>Prettify\<close> is total: for every library, environment, writer and input it
  returns a string, so the loop ends and no index or slice expression of \<open>prev\<close>,
  \<open>next\<close>, \<open>peek\<close>, \<open>isInitialism\<close>, \<open>emit\<close> or \<open>logState\<close> panics.
\<close>

theorem Prettify_total: "\<exists>out. Prettify L getenv DebugWriter inp = Some (Inr out)"
proof -
  let ?c = "entry getenv DebugWriter inp"
  from halts [OF wf_entry] obtain p where p: "(step L ^^ fuel ?c) ?c = Inr (p, None)"
    by blast
  from loop_halted [OF p] have "loop L (Some BetweenWords) (new_prettifier getenv DebugWriter inp) = Some (Inr p)"
    by (simp add: loop_from_def entry_def)
  then show ?thesis
    by (simp add: Prettify_def Prettify_debug_def Let_def)
qed

section \<open>The result does not depend on the debug settings\<close>

lemma quiet_eq:
  "quiet p = quiet q \<longleftrightarrow>
     input p = input q \<and> start p = start q \<and> pos p = pos q \<and> words p = words q \<and>
     inSubTest p = inSubTest q \<and> seenUnderscore p = seenUnderscore q"
  by (auto simp: quiet_def)

lemma quiet_pure:
  assumes "quiet p = quiet q"
  shows "cur p = cur q" "emitted L p = emitted L q" "continues L p = continues L q"
    "in_word p = in_word q" "in_range p = in_range q"
  using assms
  by (simp_all add: quiet_eq cur_def emitted_def continues_def in_word_def in_range_def
        raw_word_def is_init_def in_init_def cong: if_cong)

lemma quiet_inWord_next:
  assumes "quiet p = quiet q"
  shows "quiet_cfg (Inr (inWord_next L p d)) = quiet_cfg (Inr (inWord_next L q d'))"
  using assms quiet_pure [OF assms]
  by (simp add: inWord_next_def quiet_cfg_def) (simp add: quiet_eq)

lemma quiet_step:
  assumes "wf_cfg inp c" "wf_cfg inp c'" "quiet_cfg c = quiet_cfg c'"
  shows "quiet_cfg (step L c) = quiet_cfg (step L c')"
proof (cases "running c")
  case False
  moreover from False assms(3) have "\<not> running c'"
    by (auto simp: running_def quiet_cfg_def split: sum.splits option.splits)
  ultimately show ?thesis using assms(3) by (simp add: step_halted)
next
  case True
  then obtain p f where c: "c = Inr (p, Some f)"
    by (auto simp: running_def split: sum.splits option.splits)
  with assms(3) obtain q where c': "c' = Inr (q, Some f)" and pq: "quiet p = quiet q"
    by (auto simp: quiet_cfg_def split: sum.splits)
  show ?thesis
  proof (cases f)
    case BetweenWords
    with assms c c' have r: "in_range p" "in_range q" by (auto simp: wf_cfg_def)
    from betweenWords_ok [OF r(1)] betweenWords_ok [OF r(2)] quiet_pure(1) [OF pq] pq
    show ?thesis
      by (auto simp: c c' BetweenWords step_def quiet_cfg_def) (auto simp: quiet_eq)
  next
    case InWord
    with assms c c' have r: "in_word p" "in_word q" by (auto simp: wf_cfg_def)
    from inWord_ok [OF r(1), of L] inWord_ok [OF r(2), of L] quiet_inWord_next [OF pq]
    show ?thesis
      by (auto simp: c c' InWord step_def)
  qed
qed

lemma quiet_steps:
  assumes "wf_cfg inp c" "wf_cfg inp c'" "quiet_cfg c = quiet_cfg c'"
  shows "quiet_cfg ((step L ^^ n) c) = quiet_cfg ((step L ^^ n) c')"
proof (induction n)
  case 0
  show ?case using assms(3) by simp
next
  case (Suc n)
  from quiet_step [OF wf_steps [OF assms(1)] wf_steps [OF assms(2)] Suc]
  show ?case by simp
qed

lemma quiet_entry: "quiet_cfg (entry g W inp) = quiet_cfg (entry g' W' inp)"
  by (simp add: quiet_cfg_def entry_def quiet_eq)

lemma Prettify_same:
  "Prettify L getenv DebugWriter inp = Prettify L getenv' DebugWriter' inp"
proof -
  let ?c = "entry getenv DebugWriter inp" and ?c' = "entry getenv' DebugWriter' inp"
  let ?n = "2 * length (TrimPrefix inp (runes ''Test'')) + 1"
  have "\<exists>p. (step L ^^ fuel ?c) ?c = Inr (p, None)" by (rule halts [OF wf_entry])
  then obtain p where p: "(step L ^^ ?n) ?c = Inr (p, None)" by (auto simp: fuel_entry)
  have "\<exists>q. (step L ^^ fuel ?c') ?c' = Inr (q, None)" by (rule halts [OF wf_entry])
  then obtain q where q: "(step L ^^ ?n) ?c' = Inr (q, None)" by (auto simp: fuel_entry)
  have "quiet_cfg ((step L ^^ ?n) ?c) = quiet_cfg ((step L ^^ ?n) ?c')"
    by (rule quiet_steps [OF wf_entry wf_entry quiet_entry])
  with p q have "words p = words q" by (simp add: quiet_cfg_def quiet_eq)
  moreover from loop_halted [OF p] loop_halted [OF q]
  have "loop L (Some BetweenWords) (new_prettifier getenv DebugWriter inp) = Some (Inr p)"
       "loop L (Some BetweenWords) (new_prettifier getenv' DebugWriter' inp) = Some (Inr q)"
    by (simp_all add: loop_from_def entry_def)
  ultimately show ?thesis
    by (simp add: Prettify_def Prettify_debug_def Let_def)
qed

text \<open>
  C10, as the code has it. For every writer that is not \<open>nil\<close> (and whose \<open>Write\<close>
  returns), the string \<open>Prettify\<close> returns depends on the input only: it is the same
  for every value of \<open>GOTESTDOX_DEBUG\<close> and every such writer assigned to
  \<open>DebugWriter\<close>. While the switch is not set, the result is that same string also when
  \<open>DebugWriter\<close> is \<open>nil\<close>.
\<close>

theorem Prettify_ignores_debug:
  "Prettify_var L getenv (Some (W :: 'b writer)) inp
     = Prettify_var L getenv' (Some (W' :: 'c writer)) inp
   \<and> Prettify_var L [] (None :: 'a writer option) inp = Prettify_var L getenv (Some W) inp"
proof -
  let ?r = "Prettify L [] (Discard :: unit writer) inp"
  have "Prettify L getenv W inp = ?r" "Prettify L [] (Discard :: 'b writer) inp = ?r"
    by (rule Prettify_same)+
  then have w: "Prettify_var L getenv (Some W) inp = ?r"
    by (simp add: Prettify_var_def)
  have "Prettify L getenv' W' inp = ?r" "Prettify L [] (Discard :: 'c writer) inp = ?r"
    by (rule Prettify_same)+
  then have w': "Prettify_var L getenv' (Some W') inp = ?r"
    by (simp add: Prettify_var_def)
  have "Prettify L [] (Discard :: 'a writer) inp = ?r"
    by (rule Prettify_same)
  then have n: "Prettify_var L [] (None :: 'a writer option) inp = ?r"
    by (simp add: Prettify_var_def)
  from w w' n show ?thesis by simp
qed

section \<open>The literal scenarios\<close>

text \<open>
  The loop is unfolded pass by pass on a literal input; the rules below are the two
  cases of \<open>loop\<close> and the facts a library that agrees with Unicode on ASCII gives.
\<close>

lemma loop_None: "loop L None p = Some (Inr p)"
  by (subst loop.simps) simp

lemma loop_Some: "loop L (Some f) p = (case call L f p of Inl e \<Rightarrow> Some (Inl e) | Inr (p', state') \<Rightarrow> loop L state' p')"
  by (subst loop.simps) simp

lemma ascii_library_latin1: "ascii_library latin1"
  by (simp add: ascii_library_def latin1_def)

lemmas eval_defs = Prettify_def Prettify_debug_def new_prettifier_def loop_None loop_Some
  betweenWords_def inWord_def logState_def walk_def peek_def prev_def next_rune_def skip_def
  emit_def isInitialism_def inInitialism_def multiWordFunction_def log_def index_def slice_def
  runes_def TrimPrefix_def string_of_runes_def valid_rune_def rune_len_def len_def eof_def Let_def

lemma ascii_rules:
  assumes "ascii_library L"
  shows "ascii r \<Longrightarrow> unicode_IsUpper L r = latin1_IsUpper r"
    "ascii r \<Longrightarrow> unicode_IsLower L r = latin1_IsLower r"
    "ascii r \<Longrightarrow> unicode_IsDigit L r = latin1_IsDigit r"
    "list_all ascii w \<Longrightarrow> cases_Lower L w = map latin1_toLower w"
    "w \<noteq> [] \<Longrightarrow> list_all ascii_letter w \<Longrightarrow> cases_Title L w = latin1_Title w"
  using assms by (simp_all add: ascii_library_def)

lemmas tab_defs = ascii_def ascii_letter_def latin1_IsUpper_def latin1_IsLower_def latin1_IsDigit_def
  latin1_toLower_def latin1_toUpper_def latin1_Title_def

lemma scenario_Foo:
  "ascii_library L \<Longrightarrow> Prettify L g W (runes ''TestFoo'') = Some (Inr (runes ''Foo''))"
  by (simp add: eval_defs ascii_rules tab_defs)

lemma scenario_subtest:
  "ascii_library L \<Longrightarrow>
   Prettify L g W (runes ''TestFoo/has_well-formed_output'')
     = Some (Inr (runes ''Foo has well-formed output''))"
  by (simp add: eval_defs ascii_rules tab_defs)

lemma scenario_camel:
  "ascii_library L \<Longrightarrow>
   Prettify L g W (runes ''TestHandleInputClosesInputAfterReading'')
     = Some (Inr (runes ''Handle input closes input after reading''))"
  by (simp add: eval_defs ascii_rules tab_defs)

lemma scenario_multiword:
  "ascii_library L \<Longrightarrow>
   Prettify L g W (runes ''TestHandleInput_ClosesInputAfterReading'')
     = Some (Inr (runes ''HandleInput closes input after reading''))"
  by (simp add: eval_defs ascii_rules tab_defs)

lemma scenario_JSON:
  "ascii_library L \<Longrightarrow> Prettify L g W (runes ''TestParseJSON'') = Some (Inr (runes ''Parse JSON''))"
  by (simp add: eval_defs ascii_rules tab_defs)

lemma scenario_empty: "Prettify L g W (runes []) = Some (Inr (runes []))"
  by (simp add: eval_defs)

text \<open>
  C1. With a library that agrees with Unicode on ASCII, \<open>Prettify\<close> maps each of the
  six literal scenarios of the specification to the stated output, whatever the debug
  settings are.
\<close>

theorem Prettify_scenarios:
  assumes "ascii_library L"
  shows "Prettify L g W (runes ''TestFoo'') = Some (Inr (runes ''Foo''))
       \<and> Prettify L g W (runes ''TestFoo/has_well-formed_output'')
           = Some (Inr (runes ''Foo has well-formed output''))
       \<and> Prettify L g W (runes ''TestHandleInputClosesInputAfterReading'')
           = Some (Inr (runes ''Handle input closes input after reading''))
       \<and> Prettify L g W (runes ''TestHandleInput_ClosesInputAfterReading'')
           = Some (Inr (runes ''HandleInput closes input after reading''))
       \<and> Prettify L g W (runes ''TestParseJSON'') = Some (Inr (runes ''Parse JSON''))
       \<and> Prettify L g W (runes []) = Some (Inr (runes []))"
  using assms scenario_Foo scenario_subtest scenario_camel scenario_multiword scenario_JSON
    scenario_empty
  by blast

text \<open>The concrete library \<open>latin1\<close> agrees with Unicode on ASCII, and the scenarios hold for it.\<close>

theorem Prettify_scenarios_witness:
  "ascii_library latin1
   \<and> Prettify latin1 [] (Discard :: unit writer) (runes ''TestFoo'') = Some (Inr (runes ''Foo''))
   \<and> Prettify latin1 [] (Discard :: unit writer) (runes ''TestFoo/has_well-formed_output'')
       = Some (Inr (runes ''Foo has well-formed output''))
   \<and> Prettify latin1 [] (Discard :: unit writer) (runes ''TestHandleInputClosesInputAfterReading'')
       = Some (Inr (runes ''Handle input closes input after reading''))
   \<and> Prettify latin1 [] (Discard :: unit writer) (runes ''TestHandleInput_ClosesInputAfterReading'')
       = Some (Inr (runes ''HandleInput closes input after reading''))
   \<and> Prettify latin1 [] (Discard :: unit writer) (runes ''TestParseJSON'')
       = Some (Inr (runes ''Parse JSON''))
   \<and> Prettify latin1 [] (Discard :: unit writer) (runes []) = Some (Inr (runes []))"
  using Prettify_scenarios [OF ascii_library_latin1, of "[]" "Discard :: unit writer"]
    ascii_library_latin1
  by simp

section \<open>The writer \<open>nil\<close>\<close>

text \<open>
  C10, as the specification states it (whatever \<open>DebugWriter\<close> is assigned), fails for
  the writer \<open>nil\<close>: with the switch set \<open>Prettify\<close> panics in its first \<open>p.log\<close>, with
  the switch not set it returns \<open>Foo\<close> on \<open>TestFoo\<close>.
\<close>

theorem nil_writer_panics:
  "Prettify_var latin1 (runes ''1'') (None :: unit writer option) (runes ''TestFoo'')
     = Some (Inl NilDereference)
   \<and> Prettify_var latin1 [] (None :: unit writer option) (runes ''TestFoo'')
     = Some (Inr (runes ''Foo''))"
  by (simp add: Prettify_var_def eval_defs latin1_def tab_defs)

section \<open>The ten passes\<close>

text \<open>
  A pass from a configuration that satisfies the invariant is one of ten: the
  configuration has ended; \<open>betweenWords\<close> meets the end, a separator or another rune;
  \<open>inWord\<close> walks on, meets the end, folds at an underscore, meets an underscore without
  folding, meets a path separator, or breaks the word before an upper-case letter or a
  digit.
\<close>

lemma pass_cases [consumes 1, case_names halted bw_eof bw_skip bw_word iw_walk iw_eof iw_fold
    iw_underscore iw_slash iw_break]:
  assumes "wf_cfg inp c"
  obtains
    (halted) p where "c = Inr (p, None)" "step L c = c"
  | (bw_eof) p d where "c = Inr (p, Some BetweenWords)" "input p = inp" "in_range p"
      "start p = pos p" "cur p = eof"
      "step L c = Inr (p\<lparr>debug := d, pos := pos p + 1\<rparr>, None)"
  | (bw_skip) p d where "c = Inr (p, Some BetweenWords)" "input p = inp" "in_range p"
      "start p = pos p" "cur p = 0x5F \<or> cur p = 0x2F" "pos p < int (length inp)"
      "step L c = Inr (p\<lparr>debug := d, start := pos p + 1, pos := pos p + 1\<rparr>, Some BetweenWords)"
  | (bw_word) p d where "c = Inr (p, Some BetweenWords)" "input p = inp" "in_range p"
      "start p = pos p" "cur p \<noteq> eof" "cur p \<noteq> 0x5F" "cur p \<noteq> 0x2F" "pos p < int (length inp)"
      "step L c = Inr (p\<lparr>debug := d, pos := pos p + 1\<rparr>, Some InWord)"
  | (iw_walk) p d where "c = Inr (p, Some InWord)" "input p = inp" "in_word p"
      "continues L p" "pos p < int (length inp)"
      "step L c = Inr (p\<lparr>debug := d, pos := pos p + 1\<rparr>, Some InWord)"
  | (iw_eof) p d where "c = Inr (p, Some InWord)" "input p = inp" "in_word p" "cur p = eof"
      "step L c = Inr (p\<lparr>debug := d, words := words p @ [emitted L p], start := pos p\<rparr>, None)"
  | (iw_fold) p d where "c = Inr (p, Some InWord)" "input p = inp" "in_word p" "cur p = 0x5F"
      "\<not> seenUnderscore p" "\<not> inSubTest p"
      "step L c = Inr (p\<lparr>debug := d,
           words := [concat (map (cases_Title L) (words p @ [emitted L p]))],
           start := pos p, seenUnderscore := True\<rparr>, Some BetweenWords)"
  | (iw_underscore) p d where "c = Inr (p, Some InWord)" "input p = inp" "in_word p"
      "cur p = 0x5F" "seenUnderscore p \<or> inSubTest p"
      "step L c = Inr (p\<lparr>debug := d, words := words p @ [emitted L p], start := pos p\<rparr>,
                       Some BetweenWords)"
  | (iw_slash) p d where "c = Inr (p, Some InWord)" "input p = inp" "in_word p" "cur p = 0x2F"
      "step L c = Inr (p\<lparr>debug := d, words := words p @ [emitted L p], start := pos p,
                         inSubTest := True\<rparr>, Some BetweenWords)"
  | (iw_break) p d where "c = Inr (p, Some InWord)" "input p = inp" "in_word p"
      "\<not> continues L p" "cur p \<noteq> eof" "cur p \<noteq> 0x5F" "cur p \<noteq> 0x2F"
      "step L c = Inr (p\<lparr>debug := d, words := words p @ [emitted L p], start := pos p\<rparr>,
                       Some BetweenWords)"
proof (cases "running c")
  case False
  with assms obtain p where "c = Inr (p, None)"
    by (auto simp: running_def wf_cfg_def split: sum.splits option.splits)
  with halted False show ?thesis by (simp add: step_halted)
next
  case True
  then obtain p f where c: "c = Inr (p, Some f)"
    by (auto simp: running_def split: sum.splits option.splits)
  show ?thesis
  proof (cases f)
    case BetweenWords
    with assms c have r: "in_range p" "start p = pos p" "input p = inp"
      by (auto simp: wf_cfg_def)
    from betweenWords_ok [OF r(1)] obtain d where d: "betweenWords p =
       Inr (if cur p = eof then (p\<lparr>debug := d, pos := pos p + 1\<rparr>, None)
            else if cur p = 0x5F \<or> cur p = 0x2F
              then (p\<lparr>debug := d, start := pos p + 1, pos := pos p + 1\<rparr>, Some BetweenWords)
            else (p\<lparr>debug := d, pos := pos p + 1\<rparr>, Some InWord))" by blast
    have lt: "cur p \<noteq> eof \<Longrightarrow> pos p < int (length inp)"
      using r(3) by (auto simp: cur_def split: if_splits)
    consider "cur p = eof" | "cur p \<noteq> eof" "cur p = 0x5F \<or> cur p = 0x2F"
      | "cur p \<noteq> eof" "cur p \<noteq> 0x5F" "cur p \<noteq> 0x2F" by blast
    then show ?thesis
    proof cases
      case 1
      with d c r BetweenWords show ?thesis by (intro bw_eof [of p d]) (simp_all add: step_def)
    next
      case 2
      with d c r BetweenWords lt show ?thesis by (intro bw_skip [of p d]) (simp_all add: step_def)
    next
      case 3
      with d c r BetweenWords lt show ?thesis by (intro bw_word [of p d]) (simp_all add: step_def)
    qed
  next
    case InWord
    with assms c have r: "in_word p" "input p = inp"
      by (auto simp: wf_cfg_def)
    from inWord_ok [OF r(1)] obtain d where d: "inWord L p = Inr (inWord_next L p d)" by blast
    have nc: "cur p = eof \<or> cur p = 0x5F \<or> cur p = 0x2F \<Longrightarrow> \<not> continues L p"
      by (auto simp: continues_def Let_def)
    have e: "eof \<noteq> (0x5F :: int)" "eof \<noteq> (0x2F :: int)" by (simp_all add: eof_def)
    consider "continues L p" | "cur p = eof" | "cur p = 0x5F" "\<not> seenUnderscore p \<and> \<not> inSubTest p"
      | "cur p = 0x5F" "seenUnderscore p \<or> inSubTest p" | "cur p = 0x2F"
      | "\<not> continues L p" "cur p \<noteq> eof" "cur p \<noteq> 0x5F" "cur p \<noteq> 0x2F" by blast
    then show ?thesis
    proof cases
      case 1
      with d c r InWord continues_not_eof [of L p] show ?thesis
        by (intro iw_walk [of p d]) (simp_all add: step_def inWord_next_def)
    next
      case 2
      with d c r InWord nc show ?thesis
        by (intro iw_eof [of p d]) (simp_all add: step_def inWord_next_def)
    next
      case 3
      with d c r InWord nc e show ?thesis
        by (intro iw_fold [of p d]) (simp_all add: step_def inWord_next_def)
    next
      case 4
      with d c r InWord nc e show ?thesis
        by (intro iw_underscore [of p d]) (auto simp: step_def inWord_next_def)
    next
      case 5
      with d c r InWord nc e show ?thesis
        by (intro iw_slash [of p d]) (simp_all add: step_def inWord_next_def)
    next
      case 6
      with d c r InWord show ?thesis
        by (intro iw_break [of p d]) (simp_all add: step_def inWord_next_def)
    qed
  qed
qed

lemma reach_induct [consumes 0, case_names entry pass]:
  assumes "P (entry g W inp)"
    and "\<And>c. wf_cfg (TrimPrefix inp (runes ''Test'')) c \<Longrightarrow> P c \<Longrightarrow> P (step L c)"
  shows "P ((step L ^^ n) (entry g W inp))"
proof (induction n)
  case 0
  show ?case using assms(1) by simp
next
  case (Suc n)
  from assms(2) [OF wf_steps [OF wf_entry] Suc] show ?case by simp
qed

lemma pos_step:
  assumes "wf_cfg inp c"
  shows "cfg_pos c \<le> cfg_pos (step L c) \<and> cfg_pos (step L c) \<le> cfg_pos c + 1"
  using assms by (cases rule: pass_cases [where L = L]) (simp_all add: cfg_pos_def)

section \<open>The cursor stays in range\<close>

lemma wf_cursor:
  assumes "wf_cfg inp c"
  shows "\<exists>p st. c = Inr (p, st) \<and> input p = inp \<and> 0 \<le> start p \<and> start p \<le> pos p
           \<and> pos p \<le> int (length inp) + 1 \<and> (st \<noteq> None \<longrightarrow> cursor_in_input p)"
proof -
  from assms obtain p st where c: "c = Inr (p, st)"
    by (cases c) (auto simp: wf_cfg_def)
  show ?thesis
  proof (cases st)
    case None
    with assms c show ?thesis by (simp add: wf_cfg_def)
  next
    case (Some f)
    with assms c show ?thesis
      by (cases f) (auto simp: wf_cfg_def cursor_in_input_def in_range_def in_word_def)
  qed
qed

text \<open>
  C8, as the code has it. At the entry of every pass and when the loop has ended,
  \<open>0 <= start <= pos <= len(input) + 1\<close>; while a state is still to run,
  \<open>start <= pos <= len(input)\<close>. Inside a pass \<open>pos\<close> moves at most once (\<open>walk\<close>) and
  before \<open>start\<close> does (\<open>skip\<close>), so the cursor between the two is the start of the
  entry with the position of the exit, which the last two conjuncts bound. The position
  \<open>len(input) + 1\<close> is reached: \<open>walk\<close> increments \<open>pos\<close> also when \<open>peek\<close> returns
  \<open>eof\<close>, in the pass of \<open>betweenWords\<close> that ends the scan.
\<close>

theorem cursor_invariant:
  "\<exists>p st p' st'.
     (step L ^^ n) (entry g W inp) = Inr (p, st) \<and>
     (step L ^^ Suc n) (entry g W inp) = Inr (p', st') \<and>
     0 \<le> start p \<and> start p \<le> pos p \<and> pos p \<le> int (length (input p)) + 1 \<and>
     (st \<noteq> None \<longrightarrow> cursor_in_input p) \<and>
     start p \<le> pos p' \<and> pos p' \<le> int (length (input p)) + 1"
proof -
  let ?inp = "TrimPrefix inp (runes ''Test'')"
  let ?c = "(step L ^^ n) (entry g W inp)"
  have w: "wf_cfg ?inp ?c" by (rule wf_steps [OF wf_entry])
  from wf_cursor [OF w] obtain p st where
    p: "?c = Inr (p, st)" "input p = ?inp" "0 \<le> start p" "start p \<le> pos p"
       "pos p \<le> int (length ?inp) + 1" "st \<noteq> None \<longrightarrow> cursor_in_input p" by blast
  from wf_cursor [OF wf_step [OF w]] obtain p' st' where
    p': "step L ?c = Inr (p', st')" "pos p' \<le> int (length ?inp) + 1" by blast
  from pos_step [OF w, of L] p(1) p'(1) have "pos p \<le> pos p'" by (simp add: cfg_pos_def)
  with p p' show ?thesis by simp
qed

text \<open>
  On \<open>TestFoo\<close>, after the first pass, \<open>inWord\<close> is still to run and the cursor is
  inside the input.
\<close>

theorem cursor_invariant_witness:
  "\<exists>p st p' st'.
     (step latin1 ^^ 1) (entry [] (Discard :: unit writer) (runes ''TestFoo'')) = Inr (p, st) \<and>
     (step latin1 ^^ Suc 1) (entry [] (Discard :: unit writer) (runes ''TestFoo'')) = Inr (p', st') \<and>
     st \<noteq> None \<and> cursor_in_input p \<and> 0 \<le> start p \<and> start p \<le> pos p' \<and>
     pos p' \<le> int (length (input p)) + 1"
proof -
  have "(step latin1 ^^ 1) (entry [] (Discard :: unit writer) (runes ''TestFoo''))
      = Inr (\<lparr>debug = Discard, input = runes ''Foo'', start = 0, pos = 1, words = [],
               inSubTest = False, seenUnderscore = False\<rparr>, Some InWord)"
    by (simp add: entry_def step_def eval_defs)
  with cursor_invariant [where L = latin1 and n = 1 and g = "[]" and W = "Discard :: unit writer"
      and inp = "runes ''TestFoo''"]
  show ?thesis by auto
qed

text \<open>
  C8, as the specification states it, fails on the empty input: the only pass is the one
  of \<open>betweenWords\<close> that meets the end, and it leaves \<open>pos = 1\<close> with an input of
  length \<open>0\<close>.
\<close>

theorem cursor_past_end:
  "(case (step latin1 ^^ 1) (entry [] (Discard :: unit writer) (runes [])) of
      Inl e \<Rightarrow> False
    | Inr (p, st) \<Rightarrow> st = None \<and> input p = [] \<and> pos p = 1 \<and> \<not> cursor_in_input p)"
  by (simp add: entry_def step_def eval_defs cursor_in_input_def)

section \<open>The end of the input\<close>

lemma cur_eof:
  assumes "eof \<notin> set (input p)" "0 \<le> pos p" "pos p \<le> int (length (input p))"
  shows "cur p = eof \<longleftrightarrow> pos p = int (length (input p))"
proof (cases "pos p < int (length (input p))")
  case True
  with assms(2) have "input p ! nat (pos p) \<in> set (input p)" by simp
  with assms(1) True show ?thesis by (auto simp: cur_def)
next
  case False
  with assms(3) show ?thesis by (simp add: cur_def)
qed

lemma halted_at_end_step:
  assumes "wf_cfg inp c" "eof \<notin> set inp"
    and "\<And>p. c = Inr (p, None) \<Longrightarrow> start p = int (length inp)"
    and "step L c = Inr (q, None)"
  shows "start q = int (length inp)"
  using assms(1)
proof (cases rule: pass_cases [where L = L])
  case (halted p)
  with assms(3,4) show ?thesis by simp
next
  case (bw_eof p d)
  with assms(2) cur_eof [of p] have "pos p = int (length inp)" by (simp add: in_range_def)
  with bw_eof assms(4) show ?thesis by auto
next
  case (iw_eof p d)
  with assms(2) cur_eof [of p] have "pos p = int (length inp)" by (simp add: in_word_def)
  with iw_eof assms(4) show ?thesis by auto
qed (use assms(4) in simp_all)

lemma halted_at_end:
  assumes "eof \<notin> set (TrimPrefix inp (runes ''Test''))"
  shows "(step L ^^ n) (entry g W inp) = Inr (q, None)
         \<Longrightarrow> start q = int (length (TrimPrefix inp (runes ''Test'')))"
proof (induction n arbitrary: q)
  case 0
  then show ?case by (simp add: entry_def)
next
  case (Suc n)
  have "wf_cfg (TrimPrefix inp (runes ''Test'')) ((step L ^^ n) (entry g W inp))"
    by (rule wf_steps [OF wf_entry])
  from halted_at_end_step [OF this assms] Suc
  show ?case by simp
qed


lemma running_cursor:
  assumes "wf_cfg inp c" "c = Inr (q, Some f)"
  shows "input q = inp" "0 \<le> pos q" "pos q \<le> int (length inp)" "f = InWord \<Longrightarrow> in_word q"
  using assms by (cases f; simp add: wf_cfg_def in_range_def in_word_def)+

lemma every_index_visited:
  assumes nul: "eof \<notin> set (TrimPrefix inp (runes ''Test''))"
    and fin: "(step L ^^ n) (entry g W inp) = Inr (p, None)"
    and i: "i < length (TrimPrefix inp (runes ''Test''))"
  shows "\<exists>m<n. \<exists>q f. (step L ^^ m) (entry g W inp) = Inr (q, Some f) \<and> pos q = int i
           \<and> peek q = Inr (TrimPrefix inp (runes ''Test'') ! i)"
proof -
  let ?inp = "TrimPrefix inp (runes ''Test'')"
  let ?c = "\<lambda>m. (step L ^^ m) (entry g W inp)"
  let ?f = "\<lambda>m. cfg_pos (?c m)"
  have w: "wf_cfg ?inp (?c m)" for m by (rule wf_steps [OF wf_entry])
  have "\<forall>m<n. \<bar>?f (m + 1) - ?f m\<bar> \<le> 1"
  proof (intro allI impI)
    fix m
    from pos_step [OF w, where L = L and m1 = m] show "\<bar>?f (m + 1) - ?f m\<bar> \<le> 1" by simp
  qed
  moreover have "?f 0 \<le> int i" by (simp add: cfg_pos_def entry_def)
  moreover have "int i \<le> ?f n"
  proof -
    from halted_at_end [OF nul fin] have "start p = int (length ?inp)" .
    moreover from w [of n] fin have "start p \<le> pos p" by (simp add: wf_cfg_def)
    ultimately show ?thesis using i fin by (simp add: cfg_pos_def)
  qed
  ultimately obtain m where m: "m \<le> n" "?f m = int i"
    using nat0_intermed_int_val [of n ?f "int i"] by blast
  from w [of m] obtain q st where q: "?c m = Inr (q, st)"
    by (cases "?c m") (auto simp: wf_cfg_def)
  with m have pq: "pos q = int i" by (simp add: cfg_pos_def)
  have "st \<noteq> None"
  proof
    assume "st = None"
    with q halted_at_end [OF nul, where L = L and n = m and g = g and W = W and q = q]
    have "start q = int (length ?inp)" by simp
    moreover from w [of m] q \<open>st = None\<close> have "start q \<le> pos q" by (simp add: wf_cfg_def)
    ultimately show False using pq i by simp
  qed
  then obtain f where f: "st = Some f" by blast
  with q fin m have "m \<noteq> n" by auto
  with m have "m < n" by simp
  moreover from running_cursor [OF w [of m]] q f have "input q = ?inp" by simp
  with pq i have "peek q = Inr (?inp ! i)" by (simp add: peek_def index_def)
  ultimately show ?thesis using q f pq by blast
qed

text \<open>
  C7, as the code has it. The sentinel \<open>eof\<close> is the rune U+0000. For an input whose
  prefix-stripped runes do not contain U+0000: the scan ends in a configuration with
  \<open>start = len(input)\<close>, so every rune was skipped or emitted, and before that every
  index of the input was the cursor of some pass, in which \<open>peek\<close> returned the rune
  itself; in every pass \<open>peek\<close> returns \<open>eof\<close> exactly when the cursor is at the end of
  the input; and a pass of \<open>inWord\<close> that meets \<open>eof\<close> emits the current word and ends
  the scan.
\<close>

theorem scan_reaches_end:
  assumes "eof \<notin> set (TrimPrefix inp (runes ''Test''))"
  shows "(\<exists>n p. (step L ^^ n) (entry g W inp) = Inr (p, None)
            \<and> loop L (Some BetweenWords) (new_prettifier g W inp) = Some (Inr p)
            \<and> start p = int (length (TrimPrefix inp (runes ''Test'')))
            \<and> (\<forall>i < length (TrimPrefix inp (runes ''Test'')). \<exists>m<n. \<exists>q f.
                  (step L ^^ m) (entry g W inp) = Inr (q, Some f) \<and> pos q = int i
                  \<and> peek q = Inr (TrimPrefix inp (runes ''Test'') ! i)))
       \<and> (\<forall>m q f. (step L ^^ m) (entry g W inp) = Inr (q, Some f) \<longrightarrow>
            (peek q = Inr eof \<longleftrightarrow> pos q = int (length (TrimPrefix inp (runes ''Test'')))))
       \<and> (\<forall>m q. (step L ^^ m) (entry g W inp) = Inr (q, Some InWord) \<and> peek q = Inr eof \<longrightarrow>
            (\<exists>q' e. (step L ^^ Suc m) (entry g W inp) = Inr (q', None) \<and> emit L q = Inr e
                    \<and> words q' = words e \<and> start q' = pos q))"
proof (intro conjI allI impI)
  let ?inp = "TrimPrefix inp (runes ''Test'')"
  let ?c = "entry g W inp"
  have "\<exists>p. (step L ^^ fuel ?c) ?c = Inr (p, None)" by (rule halts [OF wf_entry])
  then obtain p where p: "(step L ^^ fuel ?c) ?c = Inr (p, None)" by blast
  from loop_halted [OF p] have "loop L (Some BetweenWords) (new_prettifier g W inp) = Some (Inr p)"
    by (simp add: loop_from_def entry_def)
  moreover from halted_at_end [OF assms p] have "start p = int (length ?inp)" .
  ultimately show "\<exists>n p. (step L ^^ n) ?c = Inr (p, None)
            \<and> loop L (Some BetweenWords) (new_prettifier g W inp) = Some (Inr p)
            \<and> start p = int (length ?inp)
            \<and> (\<forall>i < length ?inp. \<exists>m<n. \<exists>q f.
                  (step L ^^ m) ?c = Inr (q, Some f) \<and> pos q = int i \<and> peek q = Inr (?inp ! i))"
    using p every_index_visited [OF assms p] by blast
next
  fix m q f
  assume c: "(step L ^^ m) (entry g W inp) = Inr (q, Some f)"
  have w: "wf_cfg (TrimPrefix inp (runes ''Test'')) ((step L ^^ m) (entry g W inp))"
    by (rule wf_steps [OF wf_entry])
  note r = running_cursor [OF w c]
  from r(2) have "peek q = Inr (cur q)" by (rule peek_ok)
  with cur_eof [of q] assms r
  show "peek q = Inr eof \<longleftrightarrow> pos q = int (length (TrimPrefix inp (runes ''Test'')))" by simp
next
  fix m q
  assume a: "(step L ^^ m) (entry g W inp) = Inr (q, Some InWord) \<and> peek q = Inr eof"
  have w: "wf_cfg (TrimPrefix inp (runes ''Test'')) ((step L ^^ m) (entry g W inp))"
    by (rule wf_steps [OF wf_entry])
  note r = running_cursor [OF w conjunct1 [OF a]]
  from r(2) a have ce: "cur q = eof" by (simp add: peek_ok)
  have e: "eof \<noteq> (0x5F :: int)" "eof \<noteq> (0x2F :: int)" by (simp_all add: eof_def)
  have nc: "\<not> continues L q" using ce by (simp add: continues_def Let_def)
  from w have "\<exists>d. step L ((step L ^^ m) (entry g W inp))
      = Inr (q\<lparr>debug := d, words := words q @ [emitted L q], start := pos q\<rparr>, None)"
    using a ce e nc by (cases rule: pass_cases [where L = L]) auto
  with emit_ok [OF r(4) [OF refl], where L = L]
  show "\<exists>q' e. (step L ^^ Suc m) (entry g W inp) = Inr (q', None) \<and> emit L q = Inr e
                    \<and> words q' = words e \<and> start q' = pos q"
    by auto
qed

text \<open>On \<open>TestFoo\<close> the scan ends with \<open>start = 3\<close>, the length of \<open>Foo\<close>.\<close>

theorem scan_reaches_end_witness:
  "eof \<notin> set (TrimPrefix (runes ''TestFoo'') (runes ''Test''))
   \<and> (\<exists>n p. (step latin1 ^^ n) (entry [] (Discard :: unit writer) (runes ''TestFoo'')) = Inr (p, None)
          \<and> loop latin1 (Some BetweenWords) (new_prettifier [] Discard (runes ''TestFoo'')) = Some (Inr p)
          \<and> start p = 3)"
proof -
  have h: "eof \<notin> set (TrimPrefix (runes ''TestFoo'') (runes ''Test''))"
    by (simp add: TrimPrefix_def runes_def eof_def)
  have l: "length (TrimPrefix (runes ''TestFoo'') (runes ''Test'')) = 3"
    by (simp add: TrimPrefix_def runes_def)
  from scan_reaches_end [OF h, where L = latin1 and g = "[]" and W = "Discard :: unit writer"]
  show ?thesis unfolding l using h by fastforce
qed

text \<open>
  C7, as the specification states it, fails when the input contains U+0000: on the runes
  \<open>a\<close>, U+0000, \<open>b\<close> the second pass reads U+0000 at index 1 as the end of the input,
  emits \<open>A\<close> and ends the scan with \<open>start = pos = 1\<close>; the rune \<open>b\<close> is never read.
\<close>

theorem nul_ends_scan:
  "step latin1 (step latin1 (entry [] (Discard :: unit writer) [0x61, 0, 0x62]))
     = Inr (\<lparr>debug = Discard, input = [0x61, 0, 0x62], start = 1, pos = 1, words = [[0x41]],
             inSubTest = False, seenUnderscore = False\<rparr>, None)
   \<and> Prettify latin1 [] (Discard :: unit writer) [0x61, 0, 0x62] = Some (Inr [0x41])"
  by (simp add: entry_def step_def eval_defs latin1_def tab_defs)

section \<open>No leading, trailing or doubled space\<close>

lemma doubled_space_none: "0x20 \<notin> set s \<Longrightarrow> \<not> doubled_space s"
  by (induction s rule: doubled_space.induct) auto

lemma doubled_space_append:
  "a \<noteq> [] \<Longrightarrow> b \<noteq> [] \<Longrightarrow>
   doubled_space (a @ b) = (doubled_space a \<or> doubled_space b \<or> (last a = 0x20 \<and> hd b = 0x20))"
proof (induction a rule: doubled_space.induct)
  case 1
  then show ?case by simp
next
  case (2 x)
  then show ?case by (cases b) auto
next
  case (3 x y s)
  then show ?case by auto
qed

lemma solid_ends:
  assumes "solid w"
  shows "hd w \<noteq> 0x20 \<and> last w \<noteq> 0x20"
proof -
  from assms have "w \<noteq> []" "0x20 \<notin> set w" by (simp_all add: solid_def)
  moreover from \<open>w \<noteq> []\<close> have "hd w \<in> set w" "last w \<in> set w" by simp_all
  ultimately show ?thesis by metis
qed

lemma Join_solid:
  assumes "list_all solid ws" "ws \<noteq> []"
  shows "Join ws [0x20] \<noteq> [] \<and> hd (Join ws [0x20]) \<noteq> 0x20 \<and> last (Join ws [0x20]) \<noteq> 0x20
         \<and> \<not> doubled_space (Join ws [0x20])"
  using assms
proof (induction ws "[0x20 :: int]" rule: Join.induct)
  case 1
  then show ?case by simp
next
  case (2 w)
  then show ?case using solid_ends [of w] by (simp add: solid_def doubled_space_none)
next
  case (3 w v vs)
  let ?r = "Join (v # vs) [0x20]"
  from 3 have r: "?r \<noteq> []" "hd ?r \<noteq> 0x20" "last ?r \<noteq> 0x20" "\<not> doubled_space ?r"
    by simp_all
  from 3 have w: "w \<noteq> []" "hd w \<noteq> 0x20" "last w \<noteq> 0x20" "\<not> doubled_space w"
    using solid_ends [of w] by (simp_all add: solid_def doubled_space_none)
  have s: "\<not> doubled_space (0x20 # ?r)" using r by (cases ?r) auto
  have "\<not> doubled_space (w @ (0x20 # ?r))"
    using w s by (simp add: doubled_space_append)
  with r w show ?case by simp
qed

lemma Join_tidy: "list_all solid ws \<Longrightarrow> tidy (Join ws [0x20])"
proof (cases ws)
  case Nil
  then show ?thesis by (simp add: tidy_def leading_space_def trailing_space_def)
next
  case (Cons w vs)
  assume "list_all solid ws"
  from Join_solid [OF this] Cons
  have j: "Join ws [0x20] \<noteq> []" "hd (Join ws [0x20]) \<noteq> 0x20" "last (Join ws [0x20]) \<noteq> 0x20"
     "\<not> doubled_space (Join ws [0x20])" by simp_all
  then show ?thesis
    by (cases "Join ws [0x20]"; cases "rev (Join ws [0x20])")
       (auto simp: tidy_def leading_space_def trailing_space_def last_rev hd_rev
          simp flip: hd_rev)
qed


lemma raw_word_solid:
  assumes "in_word p" "0x20 \<notin> set (input p)"
  shows "solid (raw_word p)"
proof -
  let ?rs = "take (nat (pos p - start p)) (drop (nat (start p)) (input p))"
  from assms(1) have "?rs \<noteq> []" by (auto simp: in_word_def)
  moreover have "set ?rs \<subseteq> set (input p)"
    by (meson set_take_subset set_drop_subset subset_trans)
  with assms(2) have "0x20 \<notin> set ?rs" by blast
  then have "0x20 \<notin> set (string_of_runes ?rs)"
    by (auto simp: string_of_runes_def)
  ultimately show ?thesis by (simp add: solid_def raw_word_def string_of_runes_def)
qed

lemma emitted_solid:
  assumes "in_word p" "0x20 \<notin> set (input p)" "spaceless_library L"
  shows "solid (emitted L p)"
proof -
  have r: "solid (raw_word p)" by (rule raw_word_solid [OF assms(1,2)])
  with assms(3) have t: "solid (cases_Title L (raw_word p))" "solid (cases_Lower L (raw_word p))"
    by (simp_all add: spaceless_library_def)
  have ok: "solid (runes ''OK'')" by (simp add: solid_def runes_def)
  show ?thesis
    by (simp add: emitted_def Let_def r t ok)
qed

lemma fold_solid:
  assumes "spaceless_library L" "list_all solid ws" "solid w"
  shows "solid (concat (map (cases_Title L) (ws @ [w])))"
proof -
  from assms have "list_all solid (map (cases_Title L) (ws @ [w]))"
    by (simp add: spaceless_library_def list_all_iff)
  then show ?thesis by (auto simp: solid_def list_all_iff)
qed

lemma words_solid_step:
  assumes "wf_cfg inp c" "0x20 \<notin> set inp" "spaceless_library L" "list_all solid (cfg_words c)"
  shows "list_all solid (cfg_words (step L c))"
proof -
  have e: "solid (emitted L p)" if "in_word p" "input p = inp" for p :: "'a prettifier"
    using that assms(2,3) emitted_solid [of p L] by simp
  from assms(1) show ?thesis
  proof (cases rule: pass_cases [where L = L])
    case (iw_fold p d)
    with assms(4) fold_solid [OF assms(3), of "words p" "emitted L p"] e [of p]
    show ?thesis by (simp add: cfg_words_def)
  qed (use assms(4) e in \<open>simp_all add: cfg_words_def\<close>)
qed

lemma words_solid:
  assumes "0x20 \<notin> set inp" "spaceless_library L"
  shows "list_all solid (cfg_words ((step L ^^ n) (entry g W inp)))"
proof (induction rule: reach_induct)
  case entry
  show ?case by (simp add: cfg_words_def entry_def)
next
  case (pass c)
  have "set (TrimPrefix inp (runes ''Test'')) \<subseteq> set inp"
    by (simp add: TrimPrefix_def set_drop_subset)
  with assms(1) have "0x20 \<notin> set (TrimPrefix inp (runes ''Test''))" by blast
  from words_solid_step [OF pass(1) this assms(2) pass(2)] show ?case .
qed

text \<open>
  C4, as the code has it. For an input without a space character (every name
  \<open>go test\<close> produces: it writes \<open>_\<close> for a space), and a library whose case mappings
  keep a non-empty string without spaces so, the result has no leading space, no
  trailing space and no two consecutive spaces.
\<close>

theorem Prettify_tidy:
  assumes "spaceless_library L" "0x20 \<notin> set inp"
  shows "\<exists>out. Prettify L g W inp = Some (Inr out) \<and> \<not> leading_space out \<and> \<not> trailing_space out
           \<and> \<not> doubled_space out"
proof -
  let ?c = "entry g W inp"
  have "\<exists>p. (step L ^^ fuel ?c) ?c = Inr (p, None)" by (rule halts [OF wf_entry])
  then obtain p where p: "(step L ^^ fuel ?c) ?c = Inr (p, None)" by blast
  from loop_halted [OF p] have "loop L (Some BetweenWords) (new_prettifier g W inp) = Some (Inr p)"
    by (simp add: loop_from_def entry_def)
  then have "Prettify L g W inp = Some (Inr (Join (words p) [0x20]))"
    by (simp add: Prettify_def Prettify_debug_def Let_def runes_def)
  moreover from words_solid [OF assms(2,1), of "fuel ?c" g W] p have "list_all solid (words p)"
    by (simp add: cfg_words_def)
  then have "tidy (Join (words p) [0x20])" by (rule Join_tidy)
  ultimately show ?thesis by (simp add: tidy_def)
qed

lemma spaceless_latin1: "spaceless_library latin1"
proof -
  have "solid (latin1_Title w)" if "solid w" for w
    using that by (cases w) (auto simp: solid_def latin1_Title_def latin1_toUpper_def)
  moreover have "solid (map latin1_toLower w)" if "solid w" for w
    using that by (auto simp: solid_def latin1_toLower_def latin1_IsUpper_def)
  ultimately show ?thesis by (simp add: spaceless_library_def latin1_def)
qed

text \<open>The concrete library and the second scenario meet the two hypotheses.\<close>

theorem Prettify_tidy_witness:
  "spaceless_library latin1 \<and> 0x20 \<notin> set (runes ''TestFoo/has_well-formed_output'')
   \<and> (\<exists>out. Prettify latin1 [] (Discard :: unit writer) (runes ''TestFoo/has_well-formed_output'')
              = Some (Inr out)
            \<and> \<not> leading_space out \<and> \<not> trailing_space out \<and> \<not> doubled_space out)"
proof -
  have h: "0x20 \<notin> set (runes ''TestFoo/has_well-formed_output'')"
    by (simp add: runes_def)
  from Prettify_tidy [OF spaceless_latin1 h] spaceless_latin1 h show ?thesis by blast
qed

text \<open>
  C4, as the specification states it (for any input), fails on an input that holds a
  space: \<open>Prettify\<close> keeps the spaces of the input inside its words, and the input of
  one space comes back as one space.
\<close>

theorem space_in_space_out:
  "Prettify latin1 [] (Discard :: unit writer) (runes '' '') = Some (Inr (runes '' ''))
   \<and> leading_space (runes '' '') \<and> trailing_space (runes '' '')"
  by (simp add: eval_defs latin1_def tab_defs leading_space_def trailing_space_def)

section \<open>Upper-case runs are kept\<close>









section \<open>When the fold fires\<close>

lemma meets_InWord: "in_word p \<Longrightarrow> meets r (Inr (p, Some InWord)) = (cur p = r)"
  by (simp add: meets_def peek_ok in_word_def)

lemma flagged_step:
  assumes "wf_cfg inp c"
  shows "flagged (step L c) = (flagged c \<or> meets 0x5F c \<or> meets 0x2F c)"
  using assms
proof (cases rule: pass_cases [where L = L])
  case (iw_walk p d)
  then have "cur p \<noteq> 0x5F" "cur p \<noteq> 0x2F" by (auto simp: continues_def Let_def)
  with iw_walk show ?thesis by (simp add: flagged_def meets_InWord)
next
  case (iw_eof p d)
  then show ?thesis by (simp add: flagged_def meets_InWord eof_def)
qed (auto simp: flagged_def meets_InWord, simp_all add: meets_def)

lemma flagged_reach:
  "flagged ((step L ^^ n) (entry g W inp))
     = (\<exists>m<n. meets 0x5F ((step L ^^ m) (entry g W inp)) \<or> meets 0x2F ((step L ^^ m) (entry g W inp)))"
proof (induction n)
  case 0
  show ?case by (simp add: flagged_def entry_def)
next
  case (Suc n)
  have "wf_cfg (TrimPrefix inp (runes ''Test'')) ((step L ^^ n) (entry g W inp))"
    by (rule wf_steps [OF wf_entry])
  from flagged_step [OF this, of L] Suc show ?case
    by (auto simp: less_Suc_eq)
qed

lemma folds_iff: "folds c = (meets 0x5F c \<and> \<not> flagged c)"
proof (cases c)
  case (Inl e)
  then show ?thesis by (simp add: folds_def meets_def)
next
  case (Inr x)
  obtain p st where x: "x = (p, st)" by (cases x)
  show ?thesis
  proof (cases st)
    case None
    with Inr x show ?thesis by (simp add: folds_def meets_def)
  next
    case (Some f)
    with Inr x show ?thesis by (cases f) (auto simp: folds_def meets_def flagged_def)
  qed
qed

lemma foldsD:
  assumes "folds c"
  shows "\<exists>p. c = Inr (p, Some InWord) \<and> peek p = Inr 0x5F \<and> \<not> seenUnderscore p \<and> \<not> inSubTest p"
proof (cases c)
  case (Inl e)
  with assms show ?thesis by (simp add: folds_def)
next
  case (Inr x)
  obtain p st where x: "x = (p, st)" by (cases x)
  show ?thesis
  proof (cases st)
    case None
    with assms Inr x show ?thesis by (simp add: folds_def)
  next
    case (Some f)
    with assms Inr x show ?thesis by (cases f) (simp_all add: folds_def)
  qed
qed

lemma logState_state:
  "in_range p \<Longrightarrow> \<exists>w x. logState p n = Inr (log p (LogState n w x))"
  by (auto simp: logState_def in_range_def index_def slice_def)

lemma betweenWords_debug:
  assumes "in_range p" "betweenWords p = Inr (q, st)"
  shows "\<exists>w x. debug q = Fprintln (debug p) (LogState ''betweenWords'' w x)"
proof -
  from logState_state [OF assms(1)] obtain w x where
    l: "logState p ''betweenWords'' = Inr (log p (LogState ''betweenWords'' w x))" by blast
  have "0 \<le> pos p" using assms(1) by (simp add: in_range_def)
  then have "peek (log p (LogState ''betweenWords'' w x)) = Inr (cur p)"
    using peek_ok [of "log p (LogState ''betweenWords'' w x)"] by simp
  with assms(2) have "debug q = Fprintln (debug p) (LogState ''betweenWords'' w x)"
    by (auto simp: betweenWords_def l walk_def skip_def log_def split: if_splits)
  then show ?thesis by blast
qed

lemma inWord_debug:
  assumes "in_word p" "inWord L p = Inr (r, st)"
  shows "\<exists>ls. debug r = foldl Fprintln (debug p) ls \<and>
           length (filter is_multiword ls)
             = (if cur p = 0x5F \<and> \<not> seenUnderscore p \<and> \<not> inSubTest p then 1 else 0)"
proof -
  have rg: "in_range p" using assms(1) by (simp add: in_range_def in_word_def)
  from logState_state [OF rg] obtain w x where
    l: "logState p ''inWord'' = Inr (log p (LogState ''inWord'' w x))" by blast
  define l0 where "l0 = LogState ''inWord'' w x"
  define q where "q = log p l0"
  have q: "in_word q" "cur q = cur p" "0 \<le> pos q"
    using assms(1) by (simp_all add: q_def in_word_def)
  have dq: "debug q = Fprintln (debug p) l0" by (simp add: q_def log_def)
  have pk: "peek q = Inr (cur q)" using q by (simp add: peek_ok)
  have em: "emit L q = Inr (q\<lparr>debug := Fprintln (debug q) (LogEmit (emitted L q)),
                            words := words q @ [emitted L q], start := pos q\<rparr>)"
    using emit_ok [OF q(1)] .
  have wk: "walk q = Inr (cur q, q\<lparr>pos := pos q + 1\<rparr>)"
    by (simp add: walk_def pk)
  have pv: "prev q = Inr (input q ! nat (pos q - 1))"
    using q(1) by (simp add: prev_def index_def in_word_def)
  have ii: "cur q \<noteq> eof \<Longrightarrow> inInitialism L q = Inr (in_init L q)"
    using inInitialism_ok [OF q(1)] by (simp add: cur_def split: if_splits)
  define W where "W = (q\<lparr>pos := pos q + 1\<rparr>, Some InWord)"
  define l1 where "l1 = LogEmit (emitted L q)"
  define E where "E = q\<lparr>debug := Fprintln (debug q) l1,
                            words := words q @ [emitted L q], start := pos q\<rparr>"
  have body: "inWord L p =
       (if cur q = eof then Inr (E, None)
        else if cur q = 0x5F then
          Inr (if \<not> seenUnderscore E \<and> \<not> inSubTest E then multiWordFunction L E else E,
               Some BetweenWords)
        else if cur q = 0x2F then Inr (E\<lparr>inSubTest := True\<rparr>, Some BetweenWords)
        else if continues L q then Inr W else Inr (E, Some BetweenWords))"
    unfolding inWord_def l l0_def [symmetric] q_def [symmetric] bind_Inr pk
    by (simp add: em wk pv ii continues_def Let_def W_def E_def l1_def)
  define l2 where "l2 = LogMultiword (concat (map (cases_Title L) (words E)))"
  have mw: "debug (multiWordFunction L E) = Fprintln (debug E) l2"
    by (simp add: multiWordFunction_def foldl_Title [where acc="[]", simplified] log_def Let_def
          l2_def)
  have dE: "debug E = Fprintln (Fprintln (debug p) l0) l1" by (simp add: E_def dq)
  have fl: "seenUnderscore E = seenUnderscore p" "inSubTest E = inSubTest p"
    by (simp_all add: E_def q_def)
  have m: "\<not> is_multiword l0" "\<not> is_multiword l1" "is_multiword l2"
    by (simp_all add: l0_def l1_def l2_def)
  have e: "eof \<noteq> (0x5F :: int)" by (simp add: eof_def)
  consider (fold) "cur p = 0x5F" "\<not> seenUnderscore p \<and> \<not> inSubTest p"
    | (walk) "cur p \<noteq> eof" "cur p \<noteq> 0x5F" "cur p \<noteq> 0x2F" "continues L q"
    | (emit) "\<not> (cur p = 0x5F \<and> \<not> seenUnderscore p \<and> \<not> inSubTest p)"
        "\<not> (cur p \<noteq> eof \<and> cur p \<noteq> 0x5F \<and> cur p \<noteq> 0x2F \<and> continues L q)"
    by blast
  then show ?thesis
  proof cases
    case fold
    with assms(2) e have "r = multiWordFunction L E"
      by (simp add: body q(2) fl)
    with mw dE have "debug r = foldl Fprintln (debug p) [l0, l1, l2]" by simp
    with fold m show ?thesis by (intro exI [of _ "[l0, l1, l2]"]) simp
  next
    case walk
    with assms(2) have "r = q\<lparr>pos := pos q + 1\<rparr>" by (simp add: body q(2) W_def)
    with dq have "debug r = foldl Fprintln (debug p) [l0]" by simp
    with walk m show ?thesis by (intro exI [of _ "[l0]"]) simp
  next
    case emit
    with assms(2) have "r = E \<or> r = E\<lparr>inSubTest := True\<rparr>"
      by (auto simp: body q(2) fl split: if_splits)
    with dE have "debug r = foldl Fprintln (debug p) [l0, l1]" by auto
    with emit m show ?thesis by (intro exI [of _ "[l0, l1]"]) auto
  qed
qed

lemma recording_Fprintln:
  "recording w \<Longrightarrow> recording (Fprintln w l) \<and> recorded (Fprintln w l) = recorded w @ [l]"
  by (cases w) (simp_all add: recording_def)

lemma recording_foldl:
  "recording w \<Longrightarrow>
   recording (foldl Fprintln w ls) \<and> recorded (foldl Fprintln w ls) = recorded w @ ls"
  by (induction ls arbitrary: w) (simp_all add: recording_Fprintln)

lemma folds_InWord:
  "in_word p \<Longrightarrow>
   folds (Inr (p, Some InWord)) = (cur p = 0x5F \<and> \<not> seenUnderscore p \<and> \<not> inSubTest p)"
  by (simp add: folds_def peek_ok in_word_def)

lemma fold_calls_step:
  assumes "wf_cfg inp c" "cfg_recording c"
  shows "cfg_recording (step L c) \<and> fold_calls (step L c) = fold_calls c + (if folds c then 1 else 0)"
proof (cases "running c")
  case False
  then have "\<not> folds c"
    by (auto simp: folds_def running_def split: sum.splits option.splits)
  with False assms(2) show ?thesis by (simp add: step_halted)
next
  case True
  then obtain p f where c: "c = Inr (p, Some f)"
    by (auto simp: running_def split: sum.splits option.splits)
  from assms(2) c have rec: "recording (debug p)" by (simp add: cfg_recording_def)
  from wf_step [OF assms(1), of L] obtain q st where q: "step L c = Inr (q, st)"
    by (cases "step L c") (auto simp: wf_cfg_def)
  show ?thesis
  proof (cases f)
    case BetweenWords
    with assms(1) c have "in_range p" by (simp add: wf_cfg_def)
    moreover from q c BetweenWords have "betweenWords p = Inr (q, st)" by (simp add: step_def)
    ultimately obtain w x where "debug q = Fprintln (debug p) (LogState ''betweenWords'' w x)"
      using betweenWords_debug by blast
    with recording_Fprintln [OF rec, of "LogState ''betweenWords'' w x"] q c BetweenWords
    show ?thesis by (simp add: cfg_recording_def fold_calls_def folds_def)
  next
    case InWord
    with assms(1) c have iw: "in_word p" by (simp add: wf_cfg_def)
    moreover from q c InWord have "inWord L p = Inr (q, st)" by (simp add: step_def)
    ultimately obtain ls where ls: "debug q = foldl Fprintln (debug p) ls"
        "length (filter is_multiword ls)
           = (if cur p = 0x5F \<and> \<not> seenUnderscore p \<and> \<not> inSubTest p then 1 else 0)"
      using inWord_debug by blast
    with recording_foldl [OF rec, of ls] q c InWord folds_InWord [OF iw]
    show ?thesis by (simp add: cfg_recording_def fold_calls_def)
  qed
qed

lemma seen_step:
  assumes "wf_cfg inp c"
  shows "seen (step L c) = (seen c \<or> folds c)"
  using assms
proof (cases rule: pass_cases [where L = L])
  case (halted p)
  then show ?thesis by (simp add: seen_def folds_def)
next
  case (iw_eof p d)
  then show ?thesis by (simp add: seen_def folds_InWord eof_def)
next
  case (iw_walk p d)
  then have "cur p \<noteq> 0x5F" by (auto simp: continues_def Let_def)
  with iw_walk show ?thesis by (simp add: seen_def folds_InWord)
qed (auto simp: seen_def folds_InWord, simp_all add: folds_def)

lemma recorder_reach:
  assumes "g \<noteq> []"
  shows "cfg_recording ((step L ^^ n) (entry g recorder inp))
       \<and> fold_calls ((step L ^^ n) (entry g recorder inp))
           = (if seen ((step L ^^ n) (entry g recorder inp)) then 1 else 0)"
proof (induction n)
  case 0
  from assms show ?case
    by (simp add: entry_def new_prettifier_def log_def recorder_def cfg_recording_def
          recording_def fold_calls_def seen_def)
next
  case (Suc n)
  let ?c = "(step L ^^ n) (entry g recorder inp)"
  have w: "wf_cfg (TrimPrefix inp (runes ''Test'')) ?c" by (rule wf_steps [OF wf_entry])
  have "folds ?c \<Longrightarrow> \<not> seen ?c"
    using foldsD [of ?c] by (auto simp: seen_def)
  with fold_calls_step [OF w, of L] seen_step [OF w, of L] Suc show ?case by auto
qed


lemma meets_reads:
  assumes "meets r c"
  shows "reads r c"
proof (cases c)
  case (Inl e)
  with assms show ?thesis by (simp add: meets_def)
next
  case (Inr x)
  obtain p st where x: "x = (p, st)" by (cases x)
  show ?thesis
  proof (cases st)
    case None
    with assms Inr x show ?thesis by (simp add: meets_def)
  next
    case (Some f)
    with assms Inr x show ?thesis by (cases f) (simp_all add: meets_def reads_def)
  qed
qed

lemma fold_effect:
  assumes "wf_cfg inp c" "folds c"
  shows "\<exists>p e q. c = Inr (p, Some InWord) \<and> emit L p = Inr e
           \<and> step L c = Inr (q, Some BetweenWords)
           \<and> words q = [concat (map (cases_Title L) (words e))] \<and> seenUnderscore q"
proof -
  from foldsD [OF assms(2)] obtain p where p: "c = Inr (p, Some InWord)" "peek p = Inr 0x5F"
      "\<not> seenUnderscore p" "\<not> inSubTest p"
    by blast
  with assms(1) have iw: "in_word p" by (simp add: wf_cfg_def)
  with p(2) have cu: "cur p = 0x5F" by (simp add: peek_ok in_word_def)
  then have nc: "\<not> continues L p" by (simp add: continues_def Let_def)
  from assms(1) have "\<exists>d. step L c = Inr (p\<lparr>debug := d,
           words := [concat (map (cases_Title L) (words p @ [emitted L p]))],
           start := pos p, seenUnderscore := True\<rparr>, Some BetweenWords)"
    using p cu nc by (cases rule: pass_cases [where L = L]) (auto simp: eof_def)
  with emit_ok [OF iw, of L] p(1) show ?thesis by auto
qed

lemma no_fold_effect:
  assumes "wf_cfg inp c" "\<not> folds c"
  shows "\<exists>p st q st'. c = Inr (p, st) \<and> step L c = Inr (q, st')
           \<and> (words q = words p \<or> (\<exists>e. emit L p = Inr e \<and> words q = words e))"
  using assms(1)
proof (cases rule: pass_cases [where L = L])
  case (iw_fold p d)
  with assms(2) show ?thesis by (simp add: folds_InWord)
next
  case (iw_eof p d)
  with emit_ok [OF iw_eof(3), of L] show ?thesis by simp
next
  case (iw_underscore p d)
  with emit_ok [OF iw_underscore(3), of L] show ?thesis by simp
next
  case (iw_slash p d)
  with emit_ok [OF iw_slash(3), of L] show ?thesis by simp
next
  case (iw_break p d)
  with emit_ok [OF iw_break(3), of L] show ?thesis by simp
qed auto

text \<open>
  C2, as the code has it. Take any run with the debug switch set and the recording
  writer, and its configuration after \<open>n\<close> passes.
  \<^item> \<open>multiWordFunction\<close> has been called at most once.
  \<^item> If the next pass is a pass of \<open>inWord\<close> that meets an underscore, no earlier pass
    of \<open>inWord\<close> has met an underscore, and no earlier pass of either state has read a
    path separator, then the fold fires in this pass for the first time: the word list
    becomes the single word that concatenates the title-cased words emitted so far, the
    word ended by the underscore included.
  \<^item> If the next pass does not meet an underscore in \<open>inWord\<close>, or an earlier pass of
    \<open>inWord\<close> has met an underscore or a path separator, then the fold does not fire in
    this pass: the word list stays as it is or gets the one word \<open>emit\<close> appends.
  \<^item> Whenever the fold fires, it is in a pass of \<open>inWord\<close> that meets an underscore, and
    the word list becomes that single word.

  An underscore that \<open>betweenWords\<close> consumes never fires the fold. The statement says
  nothing of an underscore met after \<open>betweenWords\<close> alone has consumed a path
  separator (as in \<open>Test/fooBar_baz\<close>): \<open>inSubTest\<close> is set in \<open>inWord\<close> only.
\<close>

theorem fold_fires_once:
  fixes L :: library and g inp :: gostring and c :: "nat \<Rightarrow> logline list config"
  assumes "g \<noteq> []"
  defines "c \<equiv> \<lambda>k. (step L ^^ k) (entry g recorder inp)"
  shows "fold_calls (c n) \<le> 1
    \<and> (meets 0x5F (c n) \<and> (\<forall>m<n. \<not> meets 0x5F (c m) \<and> \<not> reads 0x2F (c m)) \<longrightarrow>
         fold_calls (c n) = 0 \<and> fold_calls (c (Suc n)) = 1 \<and>
         (\<exists>p e q. c n = Inr (p, Some InWord) \<and> emit L p = Inr e
            \<and> c (Suc n) = Inr (q, Some BetweenWords)
            \<and> words q = [concat (map (cases_Title L) (words e))]))
    \<and> (\<not> meets 0x5F (c n) \<or> (\<exists>m<n. meets 0x5F (c m) \<or> meets 0x2F (c m)) \<longrightarrow>
         fold_calls (c (Suc n)) = fold_calls (c n) \<and>
         (\<exists>p st q st'. c n = Inr (p, st) \<and> c (Suc n) = Inr (q, st')
            \<and> (words q = words p \<or> (\<exists>e. emit L p = Inr e \<and> words q = words e))))
    \<and> (fold_calls (c (Suc n)) \<noteq> fold_calls (c n) \<longrightarrow>
         meets 0x5F (c n) \<and>
         (\<exists>p e q. c n = Inr (p, Some InWord) \<and> emit L p = Inr e
            \<and> c (Suc n) = Inr (q, Some BetweenWords)
            \<and> words q = [concat (map (cases_Title L) (words e))]))"
proof (intro conjI impI)
  have w: "wf_cfg (TrimPrefix inp (runes ''Test'')) (c k)" for k
    unfolding c_def by (rule wf_steps [OF wf_entry])
  have rec: "cfg_recording (c k)" "fold_calls (c k) = (if seen (c k) then 1 else 0)" for k
    using recorder_reach [OF assms(1), where L = L and n = k and inp = inp]
    by (simp_all add: c_def)
  have fl: "flagged (c k) = (\<exists>m<k. meets 0x5F (c m) \<or> meets 0x2F (c m))" for k
    unfolding c_def by (rule flagged_reach)
  have st: "fold_calls (c (Suc k)) = fold_calls (c k) + (if folds (c k) then 1 else 0)" for k
    using fold_calls_step [OF w rec(1), where L = L and k1 = k] by (simp add: c_def)
  have sc: "c (Suc k) = step L (c k)" for k by (simp add: c_def)
  show "fold_calls (c n) \<le> 1" by (simp add: rec(2))
  {
    assume a: "meets 0x5F (c n) \<and> (\<forall>m<n. \<not> meets 0x5F (c m) \<and> \<not> reads 0x2F (c m))"
    then have "\<not> flagged (c n)" using meets_reads by (auto simp: fl)
    with a have f: "folds (c n)" by (simp add: folds_iff)
    then have "\<not> seen (c n)" using foldsD [of "c n"] by (auto simp: seen_def)
    then show "fold_calls (c n) = 0" by (simp add: rec(2))
    with f show "fold_calls (c (Suc n)) = 1" by (simp add: st)
    from fold_effect [OF w f, of L]
    show "\<exists>p e q. c n = Inr (p, Some InWord) \<and> emit L p = Inr e
            \<and> c (Suc n) = Inr (q, Some BetweenWords)
            \<and> words q = [concat (map (cases_Title L) (words e))]"
      unfolding sc by blast
  }
  {
    assume "\<not> meets 0x5F (c n) \<or> (\<exists>m<n. meets 0x5F (c m) \<or> meets 0x2F (c m))"
    then have nf: "\<not> folds (c n)" by (auto simp: folds_iff fl)
    then show "fold_calls (c (Suc n)) = fold_calls (c n)" by (simp add: st)
    from no_fold_effect [OF w nf, of L]
    show "\<exists>p st q st'. c n = Inr (p, st) \<and> c (Suc n) = Inr (q, st')
            \<and> (words q = words p \<or> (\<exists>e. emit L p = Inr e \<and> words q = words e))"
      unfolding sc .
  }
  {
    assume "fold_calls (c (Suc n)) \<noteq> fold_calls (c n)"
    then have f: "folds (c n)" by (simp add: st split: if_splits)
    then show "meets 0x5F (c n)" by (simp add: folds_iff)
    from fold_effect [OF w f, of L]
    show "\<exists>p e q. c n = Inr (p, Some InWord) \<and> emit L p = Inr e
            \<and> c (Suc n) = Inr (q, Some BetweenWords)
            \<and> words q = [concat (map (cases_Title L) (words e))]"
      unfolding sc by blast
  }
qed

text \<open>
  On \<open>TestAbCd_x\<close> the sixth pass meets the underscore after the words \<open>Ab\<close> and
  \<open>cd\<close>: \<open>multiWordFunction\<close> is called for the first time and the word list becomes
  the single word \<open>AbCd\<close>.
\<close>

theorem fold_fires_once_witness:
  "meets 0x5F ((step latin1 ^^ 5) (entry (runes ''1'') recorder (runes ''TestAbCd_x'')))
   \<and> fold_calls ((step latin1 ^^ 5) (entry (runes ''1'') recorder (runes ''TestAbCd_x''))) = 0
   \<and> fold_calls ((step latin1 ^^ Suc 5) (entry (runes ''1'') recorder (runes ''TestAbCd_x''))) = 1
   \<and> (\<exists>p e q. (step latin1 ^^ 5) (entry (runes ''1'') recorder (runes ''TestAbCd_x''))
                 = Inr (p, Some InWord)
            \<and> emit latin1 p = Inr e \<and> words e = [runes ''Ab'', runes ''cd'']
            \<and> (step latin1 ^^ Suc 5) (entry (runes ''1'') recorder (runes ''TestAbCd_x''))
                 = Inr (q, Some BetweenWords)
            \<and> words q = [runes ''AbCd''])"
proof -
  let ?c = "\<lambda>k. (step latin1 ^^ k) (entry (runes ''1'') recorder (runes ''TestAbCd_x''))"
  have g: "runes ''1'' \<noteq> []" by (simp add: runes_def)
  have v: "(case ?c 5 of Inl e \<Rightarrow> None
            | Inr (p, st) \<Rightarrow> Some (input p, start p, pos p, words p, seenUnderscore p, inSubTest p, st))
           = Some (runes ''AbCd_x'', 2, 4, [runes ''Ab''], False, False, Some InWord)"
    by (simp add: eval_nat_numeral entry_def step_def eval_defs latin1_def tab_defs recorder_def)
  have m: "meets 0x5F (?c 5)"
    using v by (auto simp: meets_def peek_def index_def runes_def split: sum.splits)
  have b: "\<forall>m<5. \<not> meets 0x5F (?c m) \<and> \<not> reads 0x2F (?c m)"
    by (simp add: eval_nat_numeral All_less_Suc meets_def reads_def entry_def step_def eval_defs
          latin1_def tab_defs recorder_def)
  from fold_fires_once [OF g, where L = latin1 and inp = "runes ''TestAbCd_x''" and n = 5] m b
  obtain p e q where f: "fold_calls (?c 5) = 0" "fold_calls (?c (Suc 5)) = 1"
      "?c 5 = Inr (p, Some InWord)" "emit latin1 p = Inr e"
      "?c (Suc 5) = Inr (q, Some BetweenWords)"
      "words q = [concat (map (cases_Title latin1) (words e))]"
    by blast
  from v f(3) have p: "input p = runes ''AbCd_x''" "start p = 2" "pos p = 4"
      "words p = [runes ''Ab'']" by simp_all
  then have "in_word p" by (simp add: in_word_def runes_def)
  from emit_ok [OF this, of latin1] f(4) have "words e = words p @ [emitted latin1 p]" by auto
  moreover have "emitted latin1 p = runes ''cd''"
    by (simp add: emitted_def raw_word_def p Let_def runes_def string_of_runes_def valid_rune_def
          len_def rune_len_def latin1_def tab_defs)
  ultimately have e: "words e = [runes ''Ab'', runes ''cd'']" by (simp add: p)
  with f(6) have "words q = [runes ''AbCd'']"
    by (simp add: latin1_def tab_defs runes_def)
  with m f e show ?thesis by blast
qed

text \<open>
  C2, as the specification states it (the first underscore of the raw identifier), fails
  on \<open>Test_FooBar\<close>: the first underscore comes before any path separator and no fold
  has happened, but \<open>betweenWords\<close> consumes it and the fold never fires: the scan
  ends after nine passes with \<open>seenUnderscore\<close> unset, the two words \<open>Foo\<close> and
  \<open>bar\<close>, and no call of \<open>multiWordFunction\<close>.
\<close>

theorem leading_underscore_no_fold:
  "loop latin1 (Some BetweenWords) (new_prettifier [] (Discard :: unit writer) (runes ''Test_FooBar''))
     = Some (Inr \<lparr>debug = Discard, input = runes ''_FooBar'', start = 7, pos = 7,
                    words = [runes ''Foo'', runes ''bar''], inSubTest = False,
                    seenUnderscore = False\<rparr>)
   \<and> Prettify latin1 [] (Discard :: unit writer) (runes ''Test_FooBar'') = Some (Inr (runes ''Foo bar''))
   \<and> \<not> running ((step latin1 ^^ 9) (entry (runes ''1'') recorder (runes ''Test_FooBar'')))
   \<and> fold_calls ((step latin1 ^^ 9) (entry (runes ''1'') recorder (runes ''Test_FooBar''))) = 0"
  by (simp add: eval_nat_numeral running_def fold_calls_def entry_def step_def eval_defs latin1_def
        tab_defs recorder_def)

section \<open>Words of two letters\<close>

text \<open>
  C6. \<open>emit\<close> tests \<open>len(word) < 3\<close>, the number of bytes of the word, while its
  comment speaks of single and double letter words. A word of two letters outside ASCII
  has four bytes: it is not lower-cased when it passes \<open>isInitialism\<close>. On
  \<open>TestFoo\<close> followed by two U+00C9 (capital E with acute) the second word is kept as
  it is, where the lower-case mapping gives two U+00E9 and where the ASCII word \<open>ID\<close>
  in the same place is rendered \<open>id\<close>.
\<close>

theorem two_letter_word_kept:
  "Prettify latin1 [] (Discard :: unit writer) (runes ''TestFoo'' @ [0xC9, 0xC9])
     = Some (Inr (runes ''Foo '' @ [0xC9, 0xC9]))
   \<and> cases_Lower latin1 [0xC9, 0xC9] = [0xE9, 0xE9]
   \<and> Prettify latin1 [] (Discard :: unit writer) (runes ''TestFooID'') = Some (Inr (runes ''Foo id''))"
  by (simp add: eval_defs latin1_def tab_defs)

end
